theory Spec2Isabelle
  imports Main
begin

section \<open>JavaScript values, promises and the microtask queue\<close>

text \<open>
  The library is written against the promises of the host language. The part of the host
  that the library relies on is made explicit here: values, a heap of promises addressed
  by allocation order, and the first-in first-out queue of microtask jobs.

  Values are non-thenable JavaScript values; objects (functions, Error instances, plain
  objects) are compared by identity, which is the number under \<open>Obj\<close>.
\<close>

datatype val = Undefined | Null | Num int | Str string | Obj nat

type_synonym pid = nat

datatype outcome = Fulfilled val | Rejected val

text \<open>
  \<^verbatim>\<open>interface Cmd { context?: any; fn: F; args: any[] }\<close>.
  The optional field is \<open>None\<close> when the property is absent; a property that is present
  with the value undefined or null is \<open>Some Undefined\<close> or \<open>Some Null\<close>.
\<close>

record cmd =
  cmd_context :: "val option"
  fn :: val
  args :: "val list"

text \<open>
  What a microtask job does when it runs, in order. \<open>AwaitCall c k\<close> is user code
  \<^verbatim>\<open>k(await call(fn)(args))\<close>: it issues a wrapped call and suspends on the promise
  returned; \<open>Settle p out\<close> is a call of a resolving function of promise \<open>p\<close>;
  \<open>Finally_unstub\<close> is the \<^verbatim>\<open>finally { unstub(); }\<close> block of \<open>withStub\<close>.
\<close>

datatype action =
    AwaitCall cmd "outcome \<Rightarrow> action list"
  | Settle pid outcome
  | Finally_unstub

type_synonym job = "action list"

record promise =
  pstate :: "outcome option"
  reactions :: "(outcome \<Rightarrow> job) list"

text \<open>
  The two resolving functions that \<^verbatim>\<open>new Promise((ok, err) => ...)\<close> hands to its
  executor, as closures over the promise they settle.
\<close>

datatype resolver = ResolveFn pid | RejectFn pid

text \<open>\<^verbatim>\<open>interface Call { cmd; resolve; reject }\<close>\<close>

record Call =
  cmd :: cmd
  resolve :: resolver
  reject :: resolver

text \<open>
  The module state: \<open>calls\<close> and \<open>stub_flag\<close> are the fields \<^verbatim>\<open>calls\<close> and
  \<^verbatim>\<open>stub\<close> of the module-level \<^verbatim>\<open>context\<close> object (\<open>None\<close> is the initial
  undefined flag); \<open>heap\<close> and \<open>queue\<close> are the host's promises and pending microtasks;
  \<open>invoked\<close> logs the real functions that have been run.
\<close>

record state =
  calls :: "Call list"
  stub_flag :: "bool option"
  heap :: "promise list"
  queue :: "job list"
  invoked :: "cmd list"

definition init_state :: state where
  "init_state = \<lparr>calls = [], stub_flag = None, heap = [], queue = [], invoked = []\<rparr>"

definition new_promise :: "state \<Rightarrow> pid \<times> state" where
  "new_promise s =
     (length (heap s), s\<lparr>heap := heap s @ [\<lparr>pstate = None, reactions = []\<rparr>]\<rparr>)"

definition pstate_of :: "state \<Rightarrow> pid \<Rightarrow> outcome option" where
  "pstate_of s p = (if p < length (heap s) then pstate (heap s ! p) else None)"

definition reactions_of :: "state \<Rightarrow> pid \<Rightarrow> (outcome \<Rightarrow> job) list" where
  "reactions_of s p = (if p < length (heap s) then reactions (heap s ! p) else [])"

text \<open>
  Settling a pending promise stores the outcome and queues one job per registered
  reaction; on a promise that is already settled the resolving functions do nothing.
\<close>

definition settle :: "pid \<Rightarrow> outcome \<Rightarrow> state \<Rightarrow> state" where
  "settle p out s =
     (if p < length (heap s) \<and> pstate (heap s ! p) = None
      then s\<lparr>heap := (heap s)[p := \<lparr>pstate = Some out, reactions = []\<rparr>],
             queue := queue s @ map (\<lambda>r. r out) (reactions (heap s ! p))\<rparr>
      else s)"

fun invoke_resolver :: "resolver \<Rightarrow> val \<Rightarrow> state \<Rightarrow> state" where
  "invoke_resolver (ResolveFn p) v s = settle p (Fulfilled v) s"
| "invoke_resolver (RejectFn p) e s = settle p (Rejected e) s"

text \<open>
  \<^verbatim>\<open>p.then(onFulfilled, onRejected)\<close> and \<^verbatim>\<open>await p\<close>: the reaction is stored while
  \<open>p\<close> is pending, and queued as a job at once when \<open>p\<close> is already settled.
\<close>

definition then_react :: "pid \<Rightarrow> (outcome \<Rightarrow> job) \<Rightarrow> state \<Rightarrow> state" where
  "then_react p r s =
     (if p < length (heap s)
      then (case pstate (heap s ! p) of
              None \<Rightarrow>
                s\<lparr>heap := (heap s)[p := (heap s ! p)\<lparr>reactions := reactions (heap s ! p) @ [r]\<rparr>]\<rparr>
            | Some out \<Rightarrow> s\<lparr>queue := queue s @ [r out]\<rparr>)
      else s)"

definition Promise_resolve :: "val \<Rightarrow> state \<Rightarrow> pid \<times> state" where
  "Promise_resolve v s = (let (p, s1) = new_promise s in (p, settle p (Fulfilled v) s1))"

definition Promise_reject :: "val \<Rightarrow> state \<Rightarrow> pid \<times> state" where
  "Promise_reject e s = (let (p, s1) = new_promise s in (p, settle p (Rejected e) s1))"

text \<open>
  \<^verbatim>\<open>Promise.race(ps)\<close> allocates the result promise and subscribes its two resolving
  functions to every element, in order.
\<close>

definition Promise_race :: "pid list \<Rightarrow> state \<Rightarrow> pid \<times> state" where
  "Promise_race ps s =
     (let (r, s1) = new_promise s
      in (r, fold (\<lambda>p. then_react p (\<lambda>out. [Settle r out])) ps s1))"

section \<open>stub.ts: the shared-object ledger\<close>

definition track :: "cmd \<Rightarrow> state \<Rightarrow> pid option \<times> state" where
  "track c s =
     (if stub_flag s \<noteq> Some True then (None, s)
      else
        let (p, s1) = new_promise s;
            c' = (if cmd_context c = None \<or> cmd_context c = Some Undefined
                     \<or> cmd_context c = Some Null
                  then \<lparr>cmd_context = None, fn = fn c, args = args c\<rparr>
                  else c);
            s2 = s1\<lparr>calls := calls s1 @ [\<lparr>cmd = c', resolve = ResolveFn p, reject = RejectFn p\<rparr>]\<rparr>
        in (Some p, s2))"

definition stub :: "state \<Rightarrow> state" where
  "stub s = s\<lparr>stub_flag := Some True\<rparr>"

definition reset :: "state \<Rightarrow> state" where
  "reset s = s\<lparr>calls := []\<rparr>"

definition unstub :: "state \<Rightarrow> state" where
  "unstub s = reset (s\<lparr>stub_flag := Some False\<rparr>)"

text \<open>
  \<^verbatim>\<open>async () => { reset(); await Promise.resolve(); }\<close>: the call runs up to the
  \<^verbatim>\<open>await\<close> and returns the promise of the async function; the rest of the body, which
  only returns, is the reaction to the awaited promise.
\<close>

definition next_tick :: "state \<Rightarrow> pid \<times> state" where
  "next_tick s =
     (let (P, s0) = new_promise s;
          s1 = reset s0;
          (q, s2) = Promise_resolve Undefined s1
      in (P, then_react q
                (\<lambda>out. case out of Fulfilled v \<Rightarrow> [Settle P (Fulfilled Undefined)]
                                  | Rejected e \<Rightarrow> [Settle P (Rejected e)]) s2))"

text \<open>
  \<^verbatim>\<open>getCalls(n?: number)\<close>: with a number the entry \<^verbatim>\<open>calls[n]\<close>, which is undefined
  (\<open>None\<close>) outside the array; without one the whole array.
\<close>

datatype calls_result = One "Call option" | All "Call list"

definition getCalls :: "int option \<Rightarrow> state \<Rightarrow> calls_result" where
  "getCalls n s =
     (case n of
        Some i \<Rightarrow> One (if 0 \<le> i \<and> nat i < length (calls s) then Some (calls s ! nat i) else None)
      | None \<Rightarrow> All (calls s))"

section \<open>The closure-based ledger\<close>

text \<open>
  The second implementation of the same module keeps \<^verbatim>\<open>calls\<close> in a module variable and
  switches interception on and off through \<^verbatim>\<open>setStub\<close> of the call module. Its
  \<^verbatim>\<open>reset\<close>, \<^verbatim>\<open>next\<close> and \<^verbatim>\<open>getCalls\<close> have the same bodies as above and are the
  definitions \<open>reset\<close>, \<open>next_tick\<close> and \<open>getCalls\<close>.
\<close>

text \<open>
  Modelled from the spec: \<^verbatim>\<open>setStub\<close> of \<^verbatim>\<open>./call\<close>, which is not among the sources.
  \<^verbatim>\<open>setStub(track)\<close> installs the tracker consulted by \<^verbatim>\<open>call\<close> (session mode active),
  \<^verbatim>\<open>setStub()\<close> removes it (session mode inactive, the hook is undefined again).
\<close>

definition setStub :: "bool \<Rightarrow> state \<Rightarrow> state" where
  "setStub installed s = s\<lparr>stub_flag := (if installed then Some True else None)\<rparr>"

definition track_closure :: "cmd \<Rightarrow> state \<Rightarrow> pid \<times> state" where
  "track_closure c s =
     (let (p, s1) = new_promise s;
          c' = (if cmd_context c = None \<or> cmd_context c = Some Undefined
                   \<or> cmd_context c = Some Null
                then \<lparr>cmd_context = None, fn = fn c, args = args c\<rparr>
                else c);
          s2 = s1\<lparr>calls := calls s1 @ [\<lparr>cmd = c', resolve = ResolveFn p, reject = RejectFn p\<rparr>]\<rparr>
      in (p, s2))"

definition stub_closure :: "state \<Rightarrow> state" where
  "stub_closure s = setStub True (reset s)"

definition unstub_closure :: "state \<Rightarrow> state" where
  "unstub_closure s = setStub False s"

section \<open>The wrapper and the scheduler\<close>

datatype impl = SharedObject | Closure

text \<open>
  The real function behind a wrapped call: its run is logged, and it returns a promise of
  its own that the outside world settles.
\<close>

definition real_call :: "cmd \<Rightarrow> state \<Rightarrow> pid \<times> state" where
  "real_call c s = (let (p, s1) = new_promise s in (p, s1\<lparr>invoked := invoked s1 @ [c]\<rparr>))"

text \<open>
  Modelled from the spec: the wrapper \<^verbatim>\<open>call\<close> of \<^verbatim>\<open>./call\<close>, which is not among the
  sources. With session mode inactive it delegates to the real function and returns its
  promise; with session mode active it records the call through the tracker and returns
  the pending promise without running the real function. For \<^verbatim>\<open>stub.ts\<close> the tracker
  itself tells the two modes apart (it returns nothing when stubbing is off).
\<close>

definition call :: "impl \<Rightarrow> cmd \<Rightarrow> state \<Rightarrow> pid \<times> state" where
  "call i c s =
     (case i of
        SharedObject \<Rightarrow>
          (case track c s of (Some p, s') \<Rightarrow> (p, s') | (None, s') \<Rightarrow> real_call c s')
      | Closure \<Rightarrow>
          (if stub_flag s = Some True then track_closure c s else real_call c s))"

fun exec :: "impl \<Rightarrow> action \<Rightarrow> state \<Rightarrow> state" where
  "exec i (AwaitCall c k) s = (let (p, s') = call i c s in then_react p k s')"
| "exec i (Settle p out) s = settle p out s"
| "exec i Finally_unstub s = (case i of SharedObject \<Rightarrow> unstub s | Closure \<Rightarrow> unstub_closure s)"

definition run_job :: "impl \<Rightarrow> job \<Rightarrow> state \<Rightarrow> state" where
  "run_job i j s = fold (exec i) j s"

text \<open>One microtask: the oldest job leaves the queue and runs to completion.\<close>

definition step :: "impl \<Rightarrow> state \<Rightarrow> state" where
  "step i s = (case queue s of [] \<Rightarrow> s | j # js \<Rightarrow> run_job i j (s\<lparr>queue := js\<rparr>))"

fun steps :: "impl \<Rightarrow> nat \<Rightarrow> state \<Rightarrow> state" where
  "steps i 0 s = s"
| "steps i (Suc n) s = steps i n (step i s)"

section \<open>withStub and assertDone\<close>

text \<open>
  \<^verbatim>\<open>async fn => { stub(); reset(); try { return (await fn(getCalls, next)); }
  finally { unstub(); } }\<close>.
  The test body \<open>f\<close> runs synchronously up to its first suspension and either throws
  (\<open>Inl\<close>) or returns its promise (\<open>Inr\<close>). A throw runs the \<^verbatim>\<open>finally\<close> block at once;
  otherwise the block is the first thing the reaction to the body's promise does, before
  the promise of \<open>withStub\<close> itself is settled with the same outcome.
\<close>

definition withStub :: "(state \<Rightarrow> (val + pid) \<times> state) \<Rightarrow> state \<Rightarrow> pid \<times> state" where
  "withStub f s =
     (let (P, s0) = new_promise s;
          s1 = stub s0;
          s2 = reset s1
      in case f s2 of
           (Inl e, s3) \<Rightarrow> (P, settle P (Rejected e) (unstub s3))
         | (Inr b, s3) \<Rightarrow> (P, then_react b (\<lambda>out. [Finally_unstub, Settle P out]) s3))"

definition withStub_closure ::
    "(state \<Rightarrow> (val + pid) \<times> state) \<Rightarrow> state \<Rightarrow> pid \<times> state" where
  "withStub_closure f s =
     (let (P, s0) = new_promise s;
          s1 = stub_closure s0;
          s2 = reset s1
      in case f s2 of
           (Inl e, s3) \<Rightarrow> (P, settle P (Rejected e) (unstub_closure s3))
         | (Inr b, s3) \<Rightarrow> (P, then_react b (\<lambda>out. [Finally_unstub, Settle P out]) s3))"

text \<open>
  \<^verbatim>\<open>p => Promise.race([p, Promise.reject("Promise has not resolved or rejected")])\<close>:
  the array, and with it the rejected promise, exists before \<^verbatim>\<open>race\<close> is entered.
\<close>

definition not_done :: val where
  "not_done = Str ''Promise has not resolved or rejected''"

definition assertDone :: "pid \<Rightarrow> state \<Rightarrow> pid \<times> state" where
  "assertDone p s = (let (q, s1) = Promise_reject not_done s in Promise_race [p, q] s1)"

section \<open>Bursts of synchronous calls\<close>

text \<open>
  \<open>N\<close> calls of the tracker made one after the other in the same synchronous run, with
  what each of them returned.
\<close>

fun track_all :: "cmd list \<Rightarrow> state \<Rightarrow> pid option list \<times> state" where
  "track_all [] s = ([], s)"
| "track_all (c # cs) s =
     (let (r, s1) = track c s; (rs, s2) = track_all cs s1 in (r # rs, s2))"

fun track_all_closure :: "cmd list \<Rightarrow> state \<Rightarrow> pid list \<times> state" where
  "track_all_closure [] s = ([], s)"
| "track_all_closure (c # cs) s =
     (let (r, s1) = track_closure c s; (rs, s2) = track_all_closure cs s1 in (r # rs, s2))"

text \<open>
  The specification's reading of a recorded command: a command without a usable context
  is recorded as the plain pair of function and arguments.
\<close>

definition no_context :: "cmd \<Rightarrow> bool" where
  "no_context c =
     (cmd_context c = None \<or> cmd_context c = Some Undefined \<or> cmd_context c = Some Null)"

definition plain :: "cmd \<Rightarrow> cmd" where
  "plain c = \<lparr>cmd_context = None, fn = fn c, args = args c\<rparr>"

definition entry :: "cmd \<Rightarrow> pid \<Rightarrow> Call" where
  "entry c p = \<lparr>cmd = (if no_context c then plain c else c),
                resolve = ResolveFn p, reject = RejectFn p\<rparr>"

definition entries :: "nat \<Rightarrow> cmd list \<Rightarrow> Call list" where
  "entries k cs = map (\<lambda>(c, p). entry c p) (zip cs [k..<k + length cs])"

definition fresh :: promise where
  "fresh = \<lparr>pstate = None, reactions = []\<rparr>"

text \<open>
  Two commands from the test suite: \<^verbatim>\<open>call(spy)(1)\<close>, which has no context, and
  \<^verbatim>\<open>call(contextObj, "tick")(1)\<close>, which is bound to an object.
\<close>

definition spy_cmd :: cmd where
  "spy_cmd = \<lparr>cmd_context = None, fn = Obj 1, args = [Num 1]\<rparr>"

definition tick_cmd :: cmd where
  "tick_cmd = \<lparr>cmd_context = Some (Obj 2), fn = Obj 3, args = [Num 1]\<rparr>"

section \<open>Jobs of user code and scenarios from the test suite\<close>

text \<open>The commands that a job issues through the wrapper, in order.\<close>

fun job_cmds :: "job \<Rightarrow> cmd list" where
  "job_cmds [] = []"
| "job_cmds (AwaitCall c k # j) = c # job_cmds j"
| "job_cmds (Settle p out # j) = job_cmds j"
| "job_cmds (Finally_unstub # j) = job_cmds j"

text \<open>
  A job can only settle promises that exist when it is queued: \<open>known_promises n j\<close>
  says that every promise \<open>j\<close> settles was allocated before the \<open>n\<close>-th. A job of the
  function under test, \<open>user_job\<close>, moreover contains no session teardown.
\<close>

definition known_promises :: "nat \<Rightarrow> job \<Rightarrow> bool" where
  "known_promises n j =
     list_all (\<lambda>a. case a of AwaitCall c k \<Rightarrow> True | Settle p out \<Rightarrow> p < n
                            | Finally_unstub \<Rightarrow> True) j"

definition user_job :: "nat \<Rightarrow> job \<Rightarrow> bool" where
  "user_job n j =
     list_all (\<lambda>a. case a of AwaitCall c k \<Rightarrow> True | Settle p out \<Rightarrow> p < n
                            | Finally_unstub \<Rightarrow> False) j"

text \<open>
  The resolving functions of the promise of an async function are not handed out: no
  job other than the function's own ever settles it. \<open>settles_not P j\<close> says so of the
  job \<open>j\<close>.
\<close>

definition settles_not :: "pid \<Rightarrow> job \<Rightarrow> bool" where
  "settles_not P j =
     list_all (\<lambda>a. case a of AwaitCall c k \<Rightarrow> True | Settle p out \<Rightarrow> p \<noteq> P
                            | Finally_unstub \<Rightarrow> True) j"

text \<open>\<^verbatim>\<open>async () => await call(spy)(1)\<close>, a function under test with one call.\<close>

definition one_call :: "impl \<Rightarrow> state \<Rightarrow> pid \<times> state" where
  "one_call i s =
     (let (endP, s0) = new_promise s;
          (p1, s1) = call i spy_cmd s0
      in (endP, then_react p1 (\<lambda>out. [Settle endP out]) s1))"

text \<open>
  An error object, and the body
  \<^verbatim>\<open>(getCalls, next) => { call(spy)(1); return Promise.reject(bodyErr); }\<close>:
  it issues one wrapped call and returns a promise that is already rejected when the
  body returns.
\<close>

definition bodyErr :: val where
  "bodyErr = Obj 7"

definition failing_body :: "impl \<Rightarrow> state \<Rightarrow> (val + pid) \<times> state" where
  "failing_body i s =
     (let (p1, s1) = call i spy_cmd s;
          (b, s2) = Promise_reject bodyErr s1
      in (Inr b, s2))"

text \<open>
  The body of the test "withStub resets in the event of error",
  \<^verbatim>\<open>(getCalls, next) => Promise.all([call(tick)(1), Promise.reject(bodyErr)])\<close>.
  The array is built first: the wrapped call, then the rejected promise. \<^verbatim>\<open>Promise.all\<close>
  then allocates its result and subscribes to both elements in order: on the pending
  call it leaves a reaction, and for the rejected promise it queues at once the job that
  rejects the result. The result is therefore pending when the body returns. A rejection
  of an element rejects the result; a fulfilment of the call is only recorded, since the
  other element never fulfils, and settles nothing.
\<close>

definition test_body :: "impl \<Rightarrow> state \<Rightarrow> (val + pid) \<times> state" where
  "test_body i s =
     (let (p1, s1) = call i spy_cmd s;
          (q, s2) = Promise_reject bodyErr s1;
          (A, s3) = new_promise s2;
          s4 = then_react p1
                 (\<lambda>out. case out of Fulfilled v \<Rightarrow> []
                                   | Rejected e \<Rightarrow> [Settle A (Rejected e)]) s3;
          s5 = then_react q
                 (\<lambda>out. case out of Fulfilled v \<Rightarrow> []
                                   | Rejected e \<Rightarrow> [Settle A (Rejected e)]) s4
      in (Inr A, s5))"

text \<open>
  A test under stubbing that has started \<open>one_call\<close> (its promise is promise \<open>0\<close>, the
  promise of the call is promise \<open>1\<close>), and the same test after it has resolved the call
  with \<open>5\<close> and before it has advanced a tick.
\<close>

definition started_one_call :: state where
  "started_one_call = snd (one_call SharedObject (reset (stub init_state)))"

definition resolved_not_ticked :: state where
  "resolved_not_ticked =
     invoke_resolver (resolve (calls started_one_call ! 0)) (Num 5) started_one_call"

text \<open>
  \<^verbatim>\<open>async function f() { await g(); return await call(contextObj, "tick")(1); }\<close>
  where \<open>g\<close> is \<open>one_call\<close>: the function under test awaits an inner async function
  before it issues a call of its own.
\<close>

definition nested_calls :: "impl \<Rightarrow> state \<Rightarrow> pid \<times> state" where
  "nested_calls i s =
     (let (endF, s0) = new_promise s;
          (endG, s1) = one_call i s0
      in (endF,
          then_react endG
            (\<lambda>out. case out of
                      Fulfilled x \<Rightarrow> [AwaitCall tick_cmd (\<lambda>out2. [Settle endF out2])]
                    | Rejected e \<Rightarrow> [Settle endF (Rejected e)]) s1))"

text \<open>
  A test body under stubbing, an async function whose own promise is promise \<open>0\<close>, that
  has started \<open>nested_calls\<close> and resolved its first call with \<open>5\<close>; and the same test
  suspended in \<^verbatim>\<open>await next()\<close>, after which it returns.
\<close>

definition nested_resolved :: state where
  "nested_resolved =
     (let (M, s1) = new_promise (reset (stub init_state));
          s2 = snd (nested_calls SharedObject s1)
      in invoke_resolver (resolve (calls s2 ! 0)) (Num 5) s2)"

definition awaiting_next :: state where
  "awaiting_next =
     (let (P, s1) = next_tick nested_resolved
      in then_react P (\<lambda>out. [Settle 0 out]) s1)"

section \<open>Properties of the tracker\<close>

lemma track_closure_eq:
  "track_closure c s =
     (length (heap s),
      s\<lparr>heap := heap s @ [fresh], calls := calls s @ [entry c (length (heap s))]\<rparr>)"
  by (simp add: track_closure_def new_promise_def entry_def no_context_def plain_def fresh_def)

lemma track_active:
  "stub_flag s = Some True \<Longrightarrow>
   track c s =
     (Some (length (heap s)),
      s\<lparr>heap := heap s @ [fresh], calls := calls s @ [entry c (length (heap s))]\<rparr>)"
  by (simp add: track_def new_promise_def entry_def no_context_def plain_def fresh_def)

lemma track_inactive: "stub_flag s \<noteq> Some True \<Longrightarrow> track c s = (None, s)"
  by (simp add: track_def)

lemma entries_Cons: "entries k (c # cs) = entry c k # entries (Suc k) cs"
  by (simp add: entries_def upt_conv_Cons del: upt_Suc)

lemma entries_Nil: "entries k [] = []"
  by (simp add: entries_def)

lemma length_entries: "length (entries k cs) = length cs"
  by (simp add: entries_def)

lemma nth_entries: "i < length cs \<Longrightarrow> entries k cs ! i = entry (cs ! i) (k + i)"
  by (simp add: entries_def)

lemma track_all_closure_eq:
  "track_all_closure cs s =
     ([length (heap s)..<length (heap s) + length cs],
      s\<lparr>heap := heap s @ replicate (length cs) fresh,
        calls := calls s @ entries (length (heap s)) cs\<rparr>)"
proof (induction cs arbitrary: s)
  case Nil
  show ?case by (simp add: entries_Nil)
next
  case (Cons c cs)
  show ?case
    by (simp add: track_closure_eq Cons.IH entries_Cons replicate_app_Cons_same
                  upt_conv_Cons del: upt_Suc)
qed

lemma track_all_active:
  "stub_flag s = Some True \<Longrightarrow>
   track_all cs s =
     (map Some [length (heap s)..<length (heap s) + length cs],
      s\<lparr>heap := heap s @ replicate (length cs) fresh,
        calls := calls s @ entries (length (heap s)) cs\<rparr>)"
proof (induction cs arbitrary: s)
  case Nil
  show ?case by (simp add: entries_Nil)
next
  case (Cons c cs)
  from Cons.prems show ?case
    by (simp add: track_active Cons.IH entries_Cons replicate_app_Cons_same
                  upt_conv_Cons del: upt_Suc)
qed

lemma getCalls_all: "getCalls None s = All (calls s)"
  by (simp add: getCalls_def)

lemma getCalls_in_range:
  "i < length (calls s) \<Longrightarrow> getCalls (Some (int i)) s = One (Some (calls s ! i))"
  by (simp add: getCalls_def)

lemma pstate_of_settle:
  "p < length (heap t) \<Longrightarrow> pstate_of t p = None \<Longrightarrow> pstate_of (settle p out t) p = Some out"
  by (simp add: pstate_of_def settle_def)

lemma invoked_settle: "invoked (settle p out t) = invoked t"
  by (simp add: settle_def)

lemma calls_settle: "calls (settle p out t) = calls t"
  by (simp add: settle_def)

lemma stub_flag_settle: "stub_flag (settle p out t) = stub_flag t"
  by (simp add: settle_def)

section \<open>The claims about the ledger\<close>

text \<open>
  C1. Every burst of \<open>N\<close> tracked calls made while stubbing is active, starting from a
  ledger that was just cleared, leaves \<open>getCalls()\<close> with exactly \<open>N\<close> entries, and the
  entry at position \<open>i\<close> is the one the \<open>i\<close>-th call appended: it carries the command of
  that call and the resolving functions of the promise that call returned. This holds
  for the shared-object tracker and for the closure-based one.
\<close>

theorem getCalls_burst_in_call_order:
  "(stub_flag s = Some True \<and> track_all cs (reset s) = (rs, s') \<longrightarrow>
      getCalls None s' = All (calls s') \<and> length (calls s') = length cs \<and>
      (\<forall>i<length cs. rs ! i = Some (length (heap s) + i) \<and>
                      calls s' ! i = entry (cs ! i) (length (heap s) + i)))
   \<and>
   (track_all_closure cs (reset s) = (ps, s'') \<longrightarrow>
      getCalls None s'' = All (calls s'') \<and> length (calls s'') = length cs \<and>
      (\<forall>i<length cs. ps ! i = length (heap s) + i \<and>
                      calls s'' ! i = entry (cs ! i) (length (heap s) + i)))"
proof (intro conjI impI)
  assume a: "stub_flag s = Some True \<and> track_all cs (reset s) = (rs, s')"
  then have flag: "stub_flag (reset s) = Some True"
    by (simp add: reset_def)
  from a track_all_active [OF flag, of cs]
  have rs: "rs = map Some [length (heap s)..<length (heap s) + length cs]"
    and s': "calls s' = entries (length (heap s)) cs"
    by (auto simp: reset_def)
  show "getCalls None s' = All (calls s')" by (rule getCalls_all)
  show "length (calls s') = length cs" by (simp add: s' length_entries)
  show "\<forall>i<length cs. rs ! i = Some (length (heap s) + i) \<and>
                       calls s' ! i = entry (cs ! i) (length (heap s) + i)"
    by (simp add: rs s' nth_entries)
next
  assume a: "track_all_closure cs (reset s) = (ps, s'')"
  with track_all_closure_eq [of cs "reset s"]
  have ps: "ps = [length (heap s)..<length (heap s) + length cs]"
    and s'': "calls s'' = entries (length (heap s)) cs"
    by (auto simp: reset_def)
  show "getCalls None s'' = All (calls s'')" by (rule getCalls_all)
  show "length (calls s'') = length cs" by (simp add: s'' length_entries)
  show "\<forall>i<length cs. ps ! i = length (heap s) + i \<and>
                       calls s'' ! i = entry (cs ! i) (length (heap s) + i)"
    by (simp add: ps s'' nth_entries)
qed

theorem getCalls_burst_in_call_order_witness:
  "stub_flag (stub init_state) = Some True \<and>
   (case track_all [spy_cmd, tick_cmd] (reset (stub init_state)) of
      (rs, s') \<Rightarrow>
        getCalls None s' = All (calls s') \<and> length (calls s') = 2 \<and>
        rs = [Some 0, Some 1] \<and> map cmd (calls s') = [spy_cmd, tick_cmd]) \<and>
   (case track_all_closure [spy_cmd, tick_cmd] (reset init_state) of
      (ps, s') \<Rightarrow>
        getCalls None s' = All (calls s') \<and> length (calls s') = 2 \<and>
        ps = [0, 1] \<and> map cmd (calls s') = [spy_cmd, tick_cmd])"
proof -
  have h: "stub_flag (stub init_state) = Some True"
    by (simp add: stub_def)
  show ?thesis
    using h
      getCalls_burst_in_call_order [of "stub init_state" "[spy_cmd, tick_cmd]"
        "fst (track_all [spy_cmd, tick_cmd] (reset (stub init_state)))"
        "snd (track_all [spy_cmd, tick_cmd] (reset (stub init_state)))"
        "fst (track_all_closure [spy_cmd, tick_cmd] (reset (stub init_state)))"
        "snd (track_all_closure [spy_cmd, tick_cmd] (reset (stub init_state)))"]
    by (simp add: track_def track_closure_def new_promise_def reset_def stub_def
                  init_state_def spy_cmd_def tick_cmd_def getCalls_def)
qed

text \<open>
  C5. The command stored by the tracker has no context field at all when the call came
  without a context: when the field is absent from the command, and also when it is
  present with the value undefined (or null). The stored field is never present as
  undefined or null. When the call came with a context (a value other than undefined
  and null) the stored command is the command as given, context included. Either way
  the entry is appended behind the existing ones.
\<close>

theorem track_context_field:
  "(track c s = (Some p, s') \<longrightarrow>
      butlast (calls s') = calls s \<and>
      (cmd_context c = None \<or> cmd_context c = Some Undefined \<or> cmd_context c = Some Null \<longrightarrow>
         cmd (last (calls s')) = \<lparr>cmd_context = None, fn = fn c, args = args c\<rparr>) \<and>
      (cmd_context c = Some x \<and> x \<noteq> Undefined \<and> x \<noteq> Null \<longrightarrow>
         cmd (last (calls s')) = c \<and> cmd_context (cmd (last (calls s'))) = Some x) \<and>
      cmd_context (cmd (last (calls s'))) \<noteq> Some Undefined \<and>
      cmd_context (cmd (last (calls s'))) \<noteq> Some Null)
   \<and>
   (track_closure c s = (p', s'') \<longrightarrow>
      butlast (calls s'') = calls s \<and>
      (cmd_context c = None \<or> cmd_context c = Some Undefined \<or> cmd_context c = Some Null \<longrightarrow>
         cmd (last (calls s'')) = \<lparr>cmd_context = None, fn = fn c, args = args c\<rparr>) \<and>
      (cmd_context c = Some x \<and> x \<noteq> Undefined \<and> x \<noteq> Null \<longrightarrow>
         cmd (last (calls s'')) = c \<and> cmd_context (cmd (last (calls s''))) = Some x) \<and>
      cmd_context (cmd (last (calls s''))) \<noteq> Some Undefined \<and>
      cmd_context (cmd (last (calls s''))) \<noteq> Some Null)"
proof (intro conjI impI)
  assume a: "track c s = (Some p, s')"
  then have act: "stub_flag s = Some True"
    by (auto simp: track_def split: if_splits)
  from a track_active [OF act, of c]
  have s': "calls s' = calls s @ [entry c (length (heap s))]" by auto
  show "butlast (calls s') = calls s" by (simp add: s')
  show "cmd (last (calls s')) = \<lparr>cmd_context = None, fn = fn c, args = args c\<rparr>"
    if "cmd_context c = None \<or> cmd_context c = Some Undefined \<or> cmd_context c = Some Null"
    using that by (simp add: s' entry_def no_context_def plain_def)
  show "cmd (last (calls s')) = c"
    if "cmd_context c = Some x \<and> x \<noteq> Undefined \<and> x \<noteq> Null"
    using that by (simp add: s' entry_def no_context_def)
  show "cmd_context (cmd (last (calls s'))) = Some x"
    if "cmd_context c = Some x \<and> x \<noteq> Undefined \<and> x \<noteq> Null"
    using that by (simp add: s' entry_def no_context_def)
  show "cmd_context (cmd (last (calls s'))) \<noteq> Some Undefined"
    by (simp add: s' entry_def no_context_def plain_def)
  show "cmd_context (cmd (last (calls s'))) \<noteq> Some Null"
    by (simp add: s' entry_def no_context_def plain_def)
next
  assume a: "track_closure c s = (p', s'')"
  with track_closure_eq [of c s]
  have s'': "calls s'' = calls s @ [entry c (length (heap s))]" by auto
  show "butlast (calls s'') = calls s" by (simp add: s'')
  show "cmd (last (calls s'')) = \<lparr>cmd_context = None, fn = fn c, args = args c\<rparr>"
    if "cmd_context c = None \<or> cmd_context c = Some Undefined \<or> cmd_context c = Some Null"
    using that by (simp add: s'' entry_def no_context_def plain_def)
  show "cmd (last (calls s'')) = c"
    if "cmd_context c = Some x \<and> x \<noteq> Undefined \<and> x \<noteq> Null"
    using that by (simp add: s'' entry_def no_context_def)
  show "cmd_context (cmd (last (calls s''))) = Some x"
    if "cmd_context c = Some x \<and> x \<noteq> Undefined \<and> x \<noteq> Null"
    using that by (simp add: s'' entry_def no_context_def)
  show "cmd_context (cmd (last (calls s''))) \<noteq> Some Undefined"
    by (simp add: s'' entry_def no_context_def plain_def)
  show "cmd_context (cmd (last (calls s''))) \<noteq> Some Null"
    by (simp add: s'' entry_def no_context_def plain_def)
qed

theorem track_context_field_witness:
  "(case track spy_cmd (stub init_state) of
      (r, s') \<Rightarrow> r = Some 0 \<and> butlast (calls s') = [] \<and>
        cmd (last (calls s')) = \<lparr>cmd_context = None, fn = Obj 1, args = [Num 1]\<rparr>) \<and>
   (case track (tick_cmd\<lparr>cmd_context := Some Undefined\<rparr>) (stub init_state) of
      (r, s') \<Rightarrow> r = Some 0 \<and>
        cmd (last (calls s')) = \<lparr>cmd_context = None, fn = Obj 3, args = [Num 1]\<rparr> \<and>
        cmd_context (cmd (last (calls s'))) \<noteq> Some Undefined) \<and>
   (case track tick_cmd (stub init_state) of
      (r, s') \<Rightarrow> r = Some 0 \<and> cmd (last (calls s')) = tick_cmd \<and>
        cmd_context (cmd (last (calls s'))) = Some (Obj 2)) \<and>
   (case track_closure spy_cmd init_state of
      (r, s') \<Rightarrow> r = 0 \<and> butlast (calls s') = [] \<and>
        cmd (last (calls s')) = \<lparr>cmd_context = None, fn = Obj 1, args = [Num 1]\<rparr>) \<and>
   (case track_closure (tick_cmd\<lparr>cmd_context := Some Undefined\<rparr>) init_state of
      (r, s') \<Rightarrow> r = 0 \<and>
        cmd (last (calls s')) = \<lparr>cmd_context = None, fn = Obj 3, args = [Num 1]\<rparr> \<and>
        cmd_context (cmd (last (calls s'))) \<noteq> Some Undefined) \<and>
   (case track_closure tick_cmd init_state of
      (r, s') \<Rightarrow> r = 0 \<and> cmd (last (calls s')) = tick_cmd \<and>
        cmd_context (cmd (last (calls s'))) = Some (Obj 2))"
  using
    track_context_field [of spy_cmd "stub init_state" 0
      "snd (track spy_cmd (stub init_state))" "Obj 2" 0
      "snd (track_closure spy_cmd (stub init_state))"]
    track_context_field [of "tick_cmd\<lparr>cmd_context := Some Undefined\<rparr>" "stub init_state" 0
      "snd (track (tick_cmd\<lparr>cmd_context := Some Undefined\<rparr>) (stub init_state))" "Obj 2" 0
      "snd (track_closure (tick_cmd\<lparr>cmd_context := Some Undefined\<rparr>) (stub init_state))"]
    track_context_field [of tick_cmd "stub init_state" 0
      "snd (track tick_cmd (stub init_state))" "Obj 2" 0
      "snd (track_closure tick_cmd (stub init_state))"]
  by (simp add: track_def track_closure_def new_promise_def stub_def init_state_def
                spy_cmd_def tick_cmd_def)

text \<open>
  C10. A command whose context field is explicitly null is treated by the tracker exactly
  as the same command without a context field: the two calls have the same result and
  leave the same state, and the command recorded holds only the function and the
  arguments.
\<close>

theorem track_null_context:
  "cmd_context c = Some Null \<Longrightarrow>
   track c s = track (c\<lparr>cmd_context := None\<rparr>) s \<and>
   track_closure c s = track_closure (c\<lparr>cmd_context := None\<rparr>) s \<and>
   (stub_flag s = Some True \<longrightarrow>
      cmd (last (calls (snd (track c s))))
        = \<lparr>cmd_context = None, fn = fn c, args = args c\<rparr>) \<and>
   cmd (last (calls (snd (track_closure c s))))
     = \<lparr>cmd_context = None, fn = fn c, args = args c\<rparr>"
  by (simp add: track_def track_closure_def new_promise_def)

theorem track_null_context_witness:
  "cmd_context (tick_cmd\<lparr>cmd_context := Some Null\<rparr>) = Some Null \<and>
   stub_flag (stub init_state) = Some True \<and>
   track (tick_cmd\<lparr>cmd_context := Some Null\<rparr>) (stub init_state)
     = track (tick_cmd\<lparr>cmd_context := None\<rparr>) (stub init_state) \<and>
   map cmd (calls (snd (track (tick_cmd\<lparr>cmd_context := Some Null\<rparr>) (stub init_state))))
     = [\<lparr>cmd_context = None, fn = Obj 3, args = [Num 1]\<rparr>] \<and>
   map cmd (calls (snd (track_closure (tick_cmd\<lparr>cmd_context := Some Null\<rparr>) init_state)))
     = [\<lparr>cmd_context = None, fn = Obj 3, args = [Num 1]\<rparr>]"
proof -
  have h: "cmd_context (tick_cmd\<lparr>cmd_context := Some Null\<rparr>) = Some Null"
    by simp
  show ?thesis
    using h track_null_context [OF h, of "stub init_state"]
    by (simp add: track_def track_closure_def new_promise_def stub_def init_state_def
                  tick_cmd_def)
qed

text \<open>
  C8. \<open>getCalls(n)\<close> is total: for an index inside the ledger it returns the entry at that
  zero-based position, for every other number (negative, or at or beyond the length) it
  returns undefined, and it has no other outcome. Positions follow insertion order: a
  tracked call lands at the position equal to the old length and moves no earlier entry.
\<close>

theorem getCalls_index:
  "(0 \<le> n \<and> nat n < length (calls s) \<longrightarrow>
      getCalls (Some n) s = One (Some (calls s ! nat n))) \<and>
   (n < 0 \<or> length (calls s) \<le> nat n \<longrightarrow> getCalls (Some n) s = One None) \<and>
   (track c s = (Some p, s') \<longrightarrow>
      getCalls (Some (int (length (calls s)))) s' = One (Some (entry c p)) \<and>
      (\<forall>i. 0 \<le> i \<and> nat i < length (calls s) \<longrightarrow>
            getCalls (Some i) s' = getCalls (Some i) s)) \<and>
   (track_closure c s = (p', s'') \<longrightarrow>
      getCalls (Some (int (length (calls s)))) s'' = One (Some (entry c p')) \<and>
      (\<forall>i. 0 \<le> i \<and> nat i < length (calls s) \<longrightarrow>
            getCalls (Some i) s'' = getCalls (Some i) s))"
proof (intro conjI impI)
  show "getCalls (Some n) s = One (Some (calls s ! nat n))"
    if "0 \<le> n \<and> nat n < length (calls s)"
    using that by (simp add: getCalls_def)
  show "getCalls (Some n) s = One None" if "n < 0 \<or> length (calls s) \<le> nat n"
    using that by (auto simp: getCalls_def)
next
  assume a: "track c s = (Some p, s')"
  then have act: "stub_flag s = Some True"
    by (auto simp: track_def split: if_splits)
  from a track_active [OF act, of c]
  have p: "p = length (heap s)" and s': "calls s' = calls s @ [entry c p]" by auto
  show "getCalls (Some (int (length (calls s)))) s' = One (Some (entry c p))"
    by (simp add: getCalls_def s')
  show "\<forall>i. 0 \<le> i \<and> nat i < length (calls s) \<longrightarrow> getCalls (Some i) s' = getCalls (Some i) s"
    by (simp add: getCalls_def s' nth_append)
next
  assume a: "track_closure c s = (p', s'')"
  with track_closure_eq [of c s]
  have p: "p' = length (heap s)" and s'': "calls s'' = calls s @ [entry c p']" by auto
  show "getCalls (Some (int (length (calls s)))) s'' = One (Some (entry c p'))"
    by (simp add: getCalls_def s'')
  show "\<forall>i. 0 \<le> i \<and> nat i < length (calls s) \<longrightarrow> getCalls (Some i) s'' = getCalls (Some i) s"
    by (simp add: getCalls_def s'' nth_append)
qed

theorem getCalls_index_witness:
  "(case track spy_cmd (stub init_state) of
      (r, s1) \<Rightarrow>
        r = Some 0 \<and>
        getCalls (Some 0) s1 = One (Some (entry spy_cmd 0)) \<and>
        getCalls (Some 1) s1 = One None \<and>
        getCalls (Some (- 1)) s1 = One None \<and>
        (case track tick_cmd s1 of
           (r', s2) \<Rightarrow>
             r' = Some 1 \<and>
             getCalls (Some 0) s2 = One (Some (entry spy_cmd 0)) \<and>
             getCalls (Some 1) s2 = One (Some (entry tick_cmd 1)) \<and>
             getCalls (Some 2) s2 = One None))"
  using
    getCalls_index [of 0 "snd (track spy_cmd (stub init_state))" tick_cmd 1
      "snd (track tick_cmd (snd (track spy_cmd (stub init_state))))" 1
      "snd (track_closure tick_cmd (snd (track spy_cmd (stub init_state))))"]
    getCalls_index [of 2 "snd (track tick_cmd (snd (track spy_cmd (stub init_state))))"]
  by (simp add: track_def track_closure_def new_promise_def stub_def init_state_def
                getCalls_def entry_def no_context_def plain_def spy_cmd_def tick_cmd_def)

text \<open>
  C4. For every in-range index \<open>i\<close> of a burst of tracked calls, the entry
  \<open>getCalls(i)\<close> carries the resolving functions of the promise that the \<open>i\<close>-th call
  returned. That promise is pending after the burst, and in every later state in which
  it is still pending \<open>resolve(v)\<close> fulfils it with exactly \<open>v\<close> and \<open>reject(e)\<close> rejects it
  with exactly \<open>e\<close>. Neither the tracking nor the settling runs a real function: the
  log of real invocations is unchanged.
\<close>

theorem resolve_reject_settle_tracked_promise:
  "(stub_flag s = Some True \<and> track_all cs (reset s) = (rs, s') \<and> i < length cs \<longrightarrow>
      (\<exists>p. rs ! i = Some p \<and>
           getCalls (Some (int i)) s' = One (Some (calls s' ! i)) \<and>
           p < length (heap s') \<and> pstate_of s' p = None \<and> invoked s' = invoked s \<and>
           (\<forall>t. p < length (heap t) \<and> pstate_of t p = None \<longrightarrow>
                pstate_of (invoke_resolver (resolve (calls s' ! i)) v t) p = Some (Fulfilled v) \<and>
                pstate_of (invoke_resolver (reject (calls s' ! i)) e t) p = Some (Rejected e) \<and>
                invoked (invoke_resolver (resolve (calls s' ! i)) v t) = invoked t \<and>
                invoked (invoke_resolver (reject (calls s' ! i)) e t) = invoked t)))
   \<and>
   (track_all_closure cs (reset s) = (ps, s'') \<and> i < length cs \<longrightarrow>
      getCalls (Some (int i)) s'' = One (Some (calls s'' ! i)) \<and>
      ps ! i < length (heap s'') \<and> pstate_of s'' (ps ! i) = None \<and>
      invoked s'' = invoked s \<and>
      (\<forall>t. ps ! i < length (heap t) \<and> pstate_of t (ps ! i) = None \<longrightarrow>
           pstate_of (invoke_resolver (resolve (calls s'' ! i)) v t) (ps ! i)
             = Some (Fulfilled v) \<and>
           pstate_of (invoke_resolver (reject (calls s'' ! i)) e t) (ps ! i)
             = Some (Rejected e) \<and>
           invoked (invoke_resolver (resolve (calls s'' ! i)) v t) = invoked t \<and>
           invoked (invoke_resolver (reject (calls s'' ! i)) e t) = invoked t))"
proof (intro conjI impI)
  assume a: "stub_flag s = Some True \<and> track_all cs (reset s) = (rs, s') \<and> i < length cs"
  then have flag: "stub_flag (reset s) = Some True" and i: "i < length cs"
    by (simp_all add: reset_def)
  define p where "p = length (heap s) + i"
  from a track_all_active [OF flag, of cs]
  have rs: "rs = map Some [length (heap s)..<length (heap s) + length cs]"
    and s': "s' = (reset s)\<lparr>heap := heap s @ replicate (length cs) fresh,
                              calls := entries (length (heap s)) cs\<rparr>"
    by (auto simp: reset_def)
  have e: "calls s' ! i = entry (cs ! i) p"
    using i by (simp add: s' nth_entries p_def)
  have "rs ! i = Some p" using i by (simp add: rs p_def)
  moreover have "getCalls (Some (int i)) s' = One (Some (calls s' ! i))"
    using i by (simp add: getCalls_in_range s' length_entries)
  moreover have "p < length (heap s')" using i by (simp add: s' p_def)
  moreover have "pstate_of s' p = None"
    using i by (simp add: s' p_def pstate_of_def nth_append fresh_def)
  moreover have "invoked s' = invoked s" by (simp add: s' reset_def)
  moreover have "\<forall>t. p < length (heap t) \<and> pstate_of t p = None \<longrightarrow>
      pstate_of (invoke_resolver (resolve (calls s' ! i)) v t) p = Some (Fulfilled v) \<and>
      pstate_of (invoke_resolver (reject (calls s' ! i)) e t) p = Some (Rejected e) \<and>
      invoked (invoke_resolver (resolve (calls s' ! i)) v t) = invoked t \<and>
      invoked (invoke_resolver (reject (calls s' ! i)) e t) = invoked t"
    by (simp add: e entry_def pstate_of_settle invoked_settle)
  ultimately show "\<exists>p. rs ! i = Some p \<and>
      getCalls (Some (int i)) s' = One (Some (calls s' ! i)) \<and>
      p < length (heap s') \<and> pstate_of s' p = None \<and> invoked s' = invoked s \<and>
      (\<forall>t. p < length (heap t) \<and> pstate_of t p = None \<longrightarrow>
           pstate_of (invoke_resolver (resolve (calls s' ! i)) v t) p = Some (Fulfilled v) \<and>
           pstate_of (invoke_resolver (reject (calls s' ! i)) e t) p = Some (Rejected e) \<and>
           invoked (invoke_resolver (resolve (calls s' ! i)) v t) = invoked t \<and>
           invoked (invoke_resolver (reject (calls s' ! i)) e t) = invoked t)"
    by blast
next
  assume a: "track_all_closure cs (reset s) = (ps, s'') \<and> i < length cs"
  then have i: "i < length cs" by simp
  from a track_all_closure_eq [of cs "reset s"]
  have ps: "ps = [length (heap s)..<length (heap s) + length cs]"
    and s'': "s'' = (reset s)\<lparr>heap := heap s @ replicate (length cs) fresh,
                               calls := entries (length (heap s)) cs\<rparr>"
    by (auto simp: reset_def)
  have p: "ps ! i = length (heap s) + i" using i by (simp add: ps)
  have e: "calls s'' ! i = entry (cs ! i) (ps ! i)"
    using i by (simp add: s'' nth_entries p)
  show "getCalls (Some (int i)) s'' = One (Some (calls s'' ! i))"
    using i by (simp add: getCalls_in_range s'' length_entries)
  show "ps ! i < length (heap s'')" using i by (simp add: s'' p)
  show "pstate_of s'' (ps ! i) = None"
    using i by (simp add: s'' p pstate_of_def nth_append fresh_def)
  show "invoked s'' = invoked s" by (simp add: s'' reset_def)
  show "\<forall>t. ps ! i < length (heap t) \<and> pstate_of t (ps ! i) = None \<longrightarrow>
      pstate_of (invoke_resolver (resolve (calls s'' ! i)) v t) (ps ! i) = Some (Fulfilled v) \<and>
      pstate_of (invoke_resolver (reject (calls s'' ! i)) e t) (ps ! i) = Some (Rejected e) \<and>
      invoked (invoke_resolver (resolve (calls s'' ! i)) v t) = invoked t \<and>
      invoked (invoke_resolver (reject (calls s'' ! i)) e t) = invoked t"
    by (simp add: e entry_def pstate_of_settle invoked_settle)
qed

theorem resolve_reject_settle_tracked_promise_witness:
  "stub_flag (stub init_state) = Some True \<and> (1::nat) < length [spy_cmd, tick_cmd] \<and>
   (case track_all [spy_cmd, tick_cmd] (reset (stub init_state)) of
      (rs, s') \<Rightarrow>
        rs ! 1 = Some 1 \<and> pstate_of s' 1 = None \<and>
        getCalls (Some 1) s' = One (Some (calls s' ! 1)) \<and>
        pstate_of (invoke_resolver (resolve (calls s' ! 1)) (Num 5) s') 1
          = Some (Fulfilled (Num 5)) \<and>
        pstate_of (invoke_resolver (reject (calls s' ! 1)) (Obj 42) s') 1
          = Some (Rejected (Obj 42)) \<and>
        invoked (invoke_resolver (resolve (calls s' ! 1)) (Num 5) s') = [])"
proof -
  have h: "stub_flag (stub init_state) = Some True \<and> (1::nat) < length [spy_cmd, tick_cmd]"
    by (simp add: stub_def)
  show ?thesis
    using h
      resolve_reject_settle_tracked_promise [of "stub init_state" "[spy_cmd, tick_cmd]"
        "fst (track_all [spy_cmd, tick_cmd] (reset (stub init_state)))"
        "snd (track_all [spy_cmd, tick_cmd] (reset (stub init_state)))" 1 "Num 5" "Obj 42"]
    by (simp add: track_def new_promise_def reset_def stub_def init_state_def
                  spy_cmd_def tick_cmd_def getCalls_def pstate_of_def settle_def)
qed

text \<open>
  C6, as stated, fails in each implementation at one of the three operations. In
  \<^verbatim>\<open>stub.ts\<close> \<open>stub()\<close> only sets the flag: called after a tracked call it leaves that
  call in the ledger. In the closure-based module \<open>unstub()\<close> only removes the hook:
  called after a tracked call it leaves that call in the ledger.
\<close>

theorem boundary_operations_clear_counterexample:
  "calls (stub (snd (track spy_cmd (stub init_state)))) \<noteq> [] \<and>
   calls (unstub_closure (snd (track_closure spy_cmd (stub_closure init_state)))) \<noteq> []"
  by (simp add: track_def track_closure_def new_promise_def stub_def stub_closure_def
                unstub_closure_def setStub_def reset_def init_state_def)

text \<open>
  C6, amended. \<open>reset()\<close> and \<open>next()\<close> empty the ledger in both implementations. Of the
  two session operations, \<^verbatim>\<open>stub.ts\<close> empties it in \<open>unstub()\<close> and leaves it as it is
  in \<open>stub()\<close>, and the closure-based module empties it in \<open>stub()\<close> and leaves it as it
  is in \<open>unstub()\<close>.
\<close>

theorem boundary_operations_clear:
  "calls (reset s) = [] \<and>
   calls (snd (next_tick s)) = [] \<and>
   calls (unstub s) = [] \<and>
   calls (stub s) = calls s \<and>
   calls (stub_closure s) = [] \<and>
   calls (unstub_closure s) = calls s"
  by (simp add: reset_def next_tick_def unstub_def stub_def stub_closure_def
                unstub_closure_def setStub_def new_promise_def Promise_resolve_def
                settle_def then_react_def Let_def)

section \<open>Frame properties of the scheduler\<close>

lemma call_eq:
  "call i c t =
     (length (heap t),
      if stub_flag t = Some True
      then t\<lparr>heap := heap t @ [fresh], calls := calls t @ [entry c (length (heap t))]\<rparr>
      else t\<lparr>heap := heap t @ [fresh], invoked := invoked t @ [c]\<rparr>)"
  by (cases i)
     (simp_all add: call_def track_active track_inactive track_closure_eq real_call_def
                    new_promise_def fresh_def)

lemma exec_AwaitCall_eq:
  "exec i (AwaitCall c k) t =
     (if stub_flag t = Some True
      then t\<lparr>heap := heap t @ [fresh\<lparr>reactions := [k]\<rparr>],
             calls := calls t @ [entry c (length (heap t))]\<rparr>
      else t\<lparr>heap := heap t @ [fresh\<lparr>reactions := [k]\<rparr>], invoked := invoked t @ [c]\<rparr>)"
  by (simp add: call_eq then_react_def fresh_def)

lemmas exec_unfold =
  exec_AwaitCall_eq settle_def unstub_def unstub_closure_def reset_def setStub_def

lemma exec_queue: "\<exists>x. queue (exec i a t) = queue t @ x"
  by (cases a; cases i) (simp_all add: exec_unfold del: exec.simps(1))

lemma exec_heap_length: "length (heap t) \<le> length (heap (exec i a t))"
  by (cases a; cases i) (simp_all add: exec_unfold del: exec.simps(1))

lemma exec_keeps_pending:
  "R < length (heap t) \<Longrightarrow> pstate_of t R = None \<Longrightarrow> (\<forall>out. a \<noteq> Settle R out) \<Longrightarrow>
   pstate_of (exec i a t) R = None"
  by (cases a; cases i)
     (auto simp add: exec_unfold pstate_of_def nth_append nth_list_update
           simp del: exec.simps(1))

lemma exec_keeps_settled:
  "pstate_of t R = Some out \<Longrightarrow> pstate_of (exec i a t) R = Some out"
  by (cases a; cases i)
     (auto simp add: exec_unfold pstate_of_def nth_append nth_list_update
           simp del: exec.simps(1) split: if_splits)

lemma run_job_Nil: "run_job i [] t = t"
  by (simp add: run_job_def)

lemma run_job_Cons: "run_job i (a # j) t = run_job i j (exec i a t)"
  by (simp add: run_job_def)

lemma run_job_queue: "\<exists>x. queue (run_job i j t) = queue t @ x"
proof (induction j arbitrary: t)
  case Nil
  show ?case by (simp add: run_job_Nil)
next
  case (Cons a j)
  obtain x where x: "queue (exec i a t) = queue t @ x"
    using exec_queue by blast
  obtain y where "queue (run_job i j (exec i a t)) = queue (exec i a t) @ y"
    using Cons.IH by blast
  then show ?case by (simp add: run_job_Cons x)
qed

lemma run_job_keeps_pending:
  "R < length (heap t) \<Longrightarrow> pstate_of t R = None \<Longrightarrow>
   \<forall>a\<in>set j. \<forall>out. a \<noteq> Settle R out \<Longrightarrow>
   R < length (heap (run_job i j t)) \<and> pstate_of (run_job i j t) R = None"
proof (induction j arbitrary: t)
  case Nil
  then show ?case by (simp add: run_job_Nil)
next
  case (Cons a j)
  have "R < length (heap (exec i a t))"
    using Cons.prems(1) exec_heap_length [of t i a] by simp
  moreover have "pstate_of (exec i a t) R = None"
    using Cons.prems by (simp add: exec_keeps_pending)
  ultimately show ?case
    using Cons.IH [of "exec i a t"] Cons.prems(3) by (simp add: run_job_Cons)
qed

lemma run_job_keeps_settled:
  "pstate_of t R = Some out \<Longrightarrow> pstate_of (run_job i j t) R = Some out"
  by (induction j arbitrary: t) (simp_all add: run_job_Nil run_job_Cons exec_keeps_settled)

lemma pstate_of_queue_update: "pstate_of (t\<lparr>queue := q\<rparr>) R = pstate_of t R"
  by (simp add: pstate_of_def)

lemma step_keeps_settled:
  "pstate_of t R = Some out \<Longrightarrow> pstate_of (step i t) R = Some out"
  by (simp add: step_def run_job_keeps_settled pstate_of_queue_update split: list.splits)

lemma steps_keeps_settled:
  "pstate_of t R = Some out \<Longrightarrow> pstate_of (steps i n t) R = Some out"
  by (induction n arbitrary: t) (simp_all add: step_keeps_settled)

lemma steps_add: "steps i (m + n) t = steps i n (steps i m t)"
  by (induction m arbitrary: t) simp_all

lemma step_Cons: "queue t = j # js \<Longrightarrow> step i t = run_job i j (t\<lparr>queue := js\<rparr>)"
  by (simp add: step_def)

text \<open>
  While the jobs at the front of the queue run, none of which settles \<open>R\<close>, the promise
  \<open>R\<close> stays pending and the jobs behind them stay next in line, in order.
\<close>

lemma steps_prefix_pending:
  "queue t = js @ rest \<Longrightarrow> R < length (heap t) \<Longrightarrow> pstate_of t R = None \<Longrightarrow>
   \<forall>j\<in>set js. \<forall>a\<in>set j. \<forall>out. a \<noteq> Settle R out \<Longrightarrow>
   (\<exists>x. queue (steps i (length js) t) = rest @ x) \<and>
   R < length (heap (steps i (length js) t)) \<and>
   pstate_of (steps i (length js) t) R = None"
proof (induction js arbitrary: t rest)
  case Nil
  then show ?case by simp
next
  case (Cons j js)
  let ?u = "t\<lparr>queue := js @ rest\<rparr>"
  have st: "step i t = run_job i j ?u"
    using Cons.prems(1) by (simp add: step_Cons)
  obtain x where q: "queue (run_job i j ?u) = (js @ rest) @ x"
    using run_job_queue [of i j ?u] by auto
  have pend: "R < length (heap (run_job i j ?u)) \<and> pstate_of (run_job i j ?u) R = None"
    using Cons.prems by (intro run_job_keeps_pending) (simp_all add: pstate_of_queue_update)
  have "(\<exists>y. queue (steps i (length js) (run_job i j ?u)) = (rest @ x) @ y) \<and>
        R < length (heap (steps i (length js) (run_job i j ?u))) \<and>
        pstate_of (steps i (length js) (run_job i j ?u)) R = None"
  proof (rule Cons.IH)
    show "queue (run_job i j ?u) = js @ (rest @ x)" using q by simp
    show "R < length (heap (run_job i j ?u))" using pend by simp
    show "pstate_of (run_job i j ?u) R = None" using pend by simp
    show "\<forall>j\<in>set js. \<forall>a\<in>set j. \<forall>out. a \<noteq> Settle R out"
      using Cons.prems(4) by simp
  qed
  then show ?case by (auto simp: st)
qed

lemma step_head_settle:
  "queue t = [Settle R out] # rest \<Longrightarrow> R < length (heap t) \<Longrightarrow> pstate_of t R = None \<Longrightarrow>
   pstate_of (step i t) R = Some out"
  by (simp add: step_Cons run_job_Cons run_job_Nil pstate_of_def settle_def)

text \<open>
  A job \<open>[Settle R out]\<close> queued behind jobs that do not settle \<open>R\<close> decides \<open>R\<close>: the
  promise is pending until the jobs before it have run, and has the outcome \<open>out\<close> from
  the moment the job itself has run.
\<close>

lemma settle_job_decides:
  assumes q: "queue t = js @ [Settle R out] # rest"
    and R: "R < length (heap t)" "pstate_of t R = None"
    and js: "\<forall>j\<in>set js. \<forall>a\<in>set j. \<forall>out'. a \<noteq> Settle R out'"
  shows "length js < n \<Longrightarrow> pstate_of (steps i n t) R = Some out"
    and "n \<le> length js \<Longrightarrow> pstate_of (steps i n t) R = None"
proof -
  let ?u = "steps i (length js) t"
  from steps_prefix_pending [OF q R js, of i]
  obtain x where u: "queue ?u = [Settle R out] # (rest @ x)"
    "R < length (heap ?u)" "pstate_of ?u R = None"
    by auto
  have one: "pstate_of (step i ?u) R = Some out"
    using u by (rule step_head_settle)
  show "pstate_of (steps i n t) R = Some out" if "length js < n"
  proof -
    define m where "m = n - Suc (length js)"
    have n: "n = length js + Suc m"
      using that by (simp add: m_def)
    have e: "steps i (length js + Suc m) t = steps i m (step i ?u)"
      by (simp only: steps_add steps.simps)
    have "pstate_of (steps i m (step i ?u)) R = Some out"
      using one by (rule steps_keeps_settled)
    then show ?thesis
      unfolding n e .
  qed
  show "pstate_of (steps i n t) R = None" if "n \<le> length js"
  proof -
    have q': "queue t = take n js @ (drop n js @ [Settle R out] # rest)"
      using q by (simp only: append_assoc [symmetric] append_take_drop_id)
    have tk: "\<forall>j\<in>set (take n js). \<forall>a\<in>set j. \<forall>out'. a \<noteq> Settle R out'"
    proof
      fix j assume "j \<in> set (take n js)"
      then have "j \<in> set js" by (rule in_set_takeD)
      with js show "\<forall>a\<in>set j. \<forall>out'. a \<noteq> Settle R out'" by blast
    qed
    have len: "length (take n js) = n" using that by simp
    from steps_prefix_pending [OF q' R tk, of i]
    show ?thesis unfolding len by blast
  qed
qed

lemma known_promises_no_settle:
  "known_promises n j \<Longrightarrow> n \<le> R \<Longrightarrow> \<forall>a\<in>set j. \<forall>out. a \<noteq> Settle R out"
  by (auto simp: known_promises_def list_all_iff)

lemma known_queue_no_settle:
  assumes "list_all (known_promises n) q" and "n \<le> R"
  shows "\<forall>j\<in>set q. \<forall>a\<in>set j. \<forall>out. a \<noteq> Settle R out"
proof
  fix j assume "j \<in> set q"
  with assms(1) have "known_promises n j" by (simp add: list_all_iff)
  from this assms(2) show "\<forall>a\<in>set j. \<forall>out. a \<noteq> Settle R out"
    by (rule known_promises_no_settle)
qed

section \<open>assertDone\<close>

lemma assertDone_settled:
  "p < length (heap s) \<Longrightarrow> pstate_of s p = Some out \<Longrightarrow>
   assertDone p s =
     (Suc (length (heap s)),
      s\<lparr>heap := heap s @ [\<lparr>pstate = Some (Rejected not_done), reactions = []\<rparr>, fresh],
        queue := queue s @ [ [Settle (Suc (length (heap s))) out],
                            [Settle (Suc (length (heap s))) (Rejected not_done)] ]\<rparr>)"
  by (simp add: assertDone_def Promise_reject_def Promise_race_def new_promise_def
                settle_def then_react_def pstate_of_def nth_append fresh_def)

lemma assertDone_pending:
  "p < length (heap s) \<Longrightarrow> pstate_of s p = None \<Longrightarrow>
   assertDone p s =
     (Suc (length (heap s)),
      s\<lparr>heap := (heap s)[p := (heap s ! p)
                     \<lparr>reactions := reactions (heap s ! p)
                                   @ [\<lambda>out. [Settle (Suc (length (heap s))) out] ]\<rparr>]
                @ [\<lparr>pstate = Some (Rejected not_done), reactions = []\<rparr>, fresh],
        queue := queue s @ [ [Settle (Suc (length (heap s))) (Rejected not_done)] ]\<rparr>)"
  by (simp add: assertDone_def Promise_reject_def Promise_race_def new_promise_def
                settle_def then_react_def pstate_of_def nth_append fresh_def
                list_update_append)

text \<open>
  The race is decided by the state of \<open>p\<close> at the call: the promise returned mirrors \<open>p\<close>
  when \<open>p\<close> is settled then, and is rejected with the fixed message when \<open>p\<close> is pending
  then, whatever the jobs already queued do to \<open>p\<close>.
\<close>

lemma assertDone_decided:
  assumes p: "p < length (heap s)"
    and known: "list_all (known_promises (length (heap s))) (queue s)"
    and res: "assertDone p s = (R, s')"
  shows "n \<le> length (queue s) \<Longrightarrow> pstate_of (steps i n s') R = None"
    and "length (queue s) < n \<Longrightarrow>
         pstate_of (steps i n s') R
           = Some (case pstate_of s p of Some out \<Rightarrow> out | None \<Rightarrow> Rejected not_done)"
proof -
  let ?R = "Suc (length (heap s))"
  have js: "\<forall>j\<in>set (queue s). \<forall>a\<in>set j. \<forall>out. a \<noteq> Settle ?R out"
    using known by (rule known_queue_no_settle) simp
  have R: "R = ?R"
    using res by (simp add: assertDone_def Promise_reject_def Promise_race_def new_promise_def
                            settle_def split_def Let_def)
  have heap_len: "length (heap s') = Suc ?R"
  proof (cases "pstate_of s p")
    case None
    from res show ?thesis unfolding assertDone_pending [OF p None] by auto
  next
    case (Some out)
    from res show ?thesis unfolding assertDone_settled [OF p Some] by auto
  qed
  have last_fresh: "heap s' ! ?R = fresh"
  proof (cases "pstate_of s p")
    case None
    from res show ?thesis unfolding assertDone_pending [OF p None]
      by (auto simp: nth_append)
  next
    case (Some out)
    from res show ?thesis unfolding assertDone_settled [OF p Some]
      by (auto simp: nth_append)
  qed
  have len: "?R < length (heap s')" by (simp add: heap_len)
  have pend: "pstate_of s' ?R = None"
    by (simp add: pstate_of_def heap_len last_fresh fresh_def)
  define out where "out = (case pstate_of s p of Some out \<Rightarrow> out | None \<Rightarrow> Rejected not_done)"
  have "\<exists>rest. queue s' = queue s @ [Settle ?R out] # rest"
  proof (cases "pstate_of s p")
    case None
    from res show ?thesis unfolding assertDone_pending [OF p None]
      by (auto simp: out_def None)
  next
    case (Some out')
    from res show ?thesis unfolding assertDone_settled [OF p Some]
      by (auto simp: out_def Some)
  qed
  then obtain rest where q: "queue s' = queue s @ [Settle ?R out] # rest" ..
  show "pstate_of (steps i n s') R = None" if "n \<le> length (queue s)"
    using settle_job_decides(2) [OF q len pend js that] by (simp add: R)
  show "pstate_of (steps i n s') R
          = Some (case pstate_of s p of Some out \<Rightarrow> out | None \<Rightarrow> Rejected not_done)"
    if "length (queue s) < n"
    using settle_job_decides(1) [OF q len pend js that] by (simp add: R out_def)
qed

section \<open>The scenarios, evaluated\<close>

lemma started_one_call_eq:
  "started_one_call =
     \<lparr>calls = [entry spy_cmd 1], stub_flag = Some True,
      heap = [fresh, \<lparr>pstate = None, reactions = [\<lambda>out. [Settle 0 out] ]\<rparr>],
      queue = [], invoked = []\<rparr>"
  by (simp add: started_one_call_def one_call_def call_def track_def new_promise_def
                reset_def stub_def init_state_def then_react_def spy_cmd_def
                entry_def no_context_def plain_def fresh_def)

lemma resolved_not_ticked_eq:
  "resolved_not_ticked =
     \<lparr>calls = [entry spy_cmd 1], stub_flag = Some True,
      heap = [fresh, \<lparr>pstate = Some (Fulfilled (Num 5)), reactions = []\<rparr>],
      queue = [ [Settle 0 (Fulfilled (Num 5))] ], invoked = []\<rparr>"
  by (simp add: resolved_not_ticked_def started_one_call_eq entry_def settle_def)

lemmas race_eval =
  fresh_def assertDone_def Promise_reject_def Promise_race_def new_promise_def settle_def
  then_react_def step_def run_job_def pstate_of_def

section \<open>The claims about assertDone\<close>

text \<open>
  C7, as stated, fails when \<open>p\<close> settles after \<open>assertDone(p)\<close> was called and before the
  race is decided. The test has resolved the only call of \<open>one_call\<close> and calls
  \<open>assertDone\<close> on the promise of \<open>one_call\<close> (promise \<open>0\<close>) without advancing a tick:
  that promise is pending at the call, is fulfilled with \<open>5\<close> by the first queued job
  while the promise of \<open>assertDone\<close> (promise \<open>3\<close>) is still pending, and the second job
  nevertheless rejects the promise of \<open>assertDone\<close> with the fixed message.
\<close>

theorem assertDone_race_counterexample:
  "pstate_of resolved_not_ticked 0 = None \<and>
   fst (assertDone 0 resolved_not_ticked) = 3 \<and>
   pstate_of (step SharedObject (snd (assertDone 0 resolved_not_ticked))) 0
     = Some (Fulfilled (Num 5)) \<and>
   pstate_of (step SharedObject (snd (assertDone 0 resolved_not_ticked))) 3 = None \<and>
   pstate_of (step SharedObject (step SharedObject (snd (assertDone 0 resolved_not_ticked)))) 3
     = Some (Rejected not_done) \<and>
   pstate_of (step SharedObject (step SharedObject (snd (assertDone 0 resolved_not_ticked)))) 0
     = Some (Fulfilled (Num 5))"
  by (simp add: resolved_not_ticked_eq race_eval)

text \<open>
  C7, amended. The promise returned by \<open>assertDone(p)\<close> is pending while the jobs
  queued before the call run. Once the job after them has run it is settled for good:
  with the outcome of \<open>p\<close> when \<open>p\<close> was already settled at the moment of the call, and
  rejected with the message "Promise has not resolved or rejected" when \<open>p\<close> was still
  pending at that moment, whether or not \<open>p\<close> settles in between.
\<close>

theorem assertDone_race:
  assumes "p < length (heap s)"
    and "list_all (known_promises (length (heap s))) (queue s)"
    and "assertDone p s = (R, s')"
  shows "(n \<le> length (queue s) \<longrightarrow> pstate_of (steps i n s') R = None) \<and>
         (length (queue s) < n \<longrightarrow>
            (pstate_of s p = Some out \<longrightarrow> pstate_of (steps i n s') R = Some out) \<and>
            (pstate_of s p = None \<longrightarrow>
               pstate_of (steps i n s') R = Some (Rejected not_done)))"
proof (intro conjI impI)
  show "pstate_of (steps i n s') R = None" if "n \<le> length (queue s)"
    using assertDone_decided(1) [OF assms that] .
  show "pstate_of (steps i n s') R = Some out"
    if "length (queue s) < n" "pstate_of s p = Some out"
    using assertDone_decided(2) [OF assms that(1), of i] that(2) by simp
  show "pstate_of (steps i n s') R = Some (Rejected not_done)"
    if "length (queue s) < n" "pstate_of s p = None"
    using assertDone_decided(2) [OF assms that(1), of i] that(2) by simp
qed

theorem assertDone_race_witness:
  "(0::nat) < length (heap resolved_not_ticked) \<and>
   list_all (known_promises (length (heap resolved_not_ticked))) (queue resolved_not_ticked) \<and>
   length (queue resolved_not_ticked) = 1 \<and>
   pstate_of resolved_not_ticked 0 = None \<and>
   pstate_of (steps SharedObject 2 (snd (assertDone 0 resolved_not_ticked)))
             (fst (assertDone 0 resolved_not_ticked)) = Some (Rejected not_done) \<and>
   (0::nat) < length (heap (step SharedObject resolved_not_ticked)) \<and>
   list_all (known_promises (length (heap (step SharedObject resolved_not_ticked))))
            (queue (step SharedObject resolved_not_ticked)) \<and>
   length (queue (step SharedObject resolved_not_ticked)) = 0 \<and>
   pstate_of (step SharedObject resolved_not_ticked) 0 = Some (Fulfilled (Num 5)) \<and>
   pstate_of (steps SharedObject 1 (snd (assertDone 0 (step SharedObject resolved_not_ticked))))
             (fst (assertDone 0 (step SharedObject resolved_not_ticked)))
     = Some (Fulfilled (Num 5))"
proof -
  let ?s = "resolved_not_ticked" and ?t = "step SharedObject resolved_not_ticked"
  have s: "(0::nat) < length (heap ?s)"
    "list_all (known_promises (length (heap ?s))) (queue ?s)"
    "length (queue ?s) = 1" "pstate_of ?s 0 = None"
    by (simp_all add: resolved_not_ticked_eq known_promises_def race_eval)
  have t: "(0::nat) < length (heap ?t)"
    "list_all (known_promises (length (heap ?t))) (queue ?t)"
    "length (queue ?t) = 0" "pstate_of ?t 0 = Some (Fulfilled (Num 5))"
    by (simp_all add: resolved_not_ticked_eq known_promises_def race_eval)
  have "pstate_of (steps SharedObject 2 (snd (assertDone 0 ?s))) (fst (assertDone 0 ?s))
          = Some (Rejected not_done)"
    using assertDone_race [OF s(1) s(2) prod.collapse [symmetric], of 2 SharedObject]
    by (simp add: s(3) s(4))
  moreover
  have "pstate_of (steps SharedObject 1 (snd (assertDone 0 ?t))) (fst (assertDone 0 ?t))
          = Some (Fulfilled (Num 5))"
    using assertDone_race [OF t(1) t(2) prod.collapse [symmetric], of 1 SharedObject
                              "Fulfilled (Num 5)"]
    by (simp add: t(3) t(4))
  ultimately show ?thesis using s t by simp
qed

text \<open>
  C9, as stated, fails: the value that \<open>assertDone\<close> rejects with is a plain string, and
  a test may reject a call with that very string. Here the test rejects the call of
  \<open>one_call\<close> (promise \<open>1\<close>) with it, and \<open>assertDone\<close> on the still pending promise \<open>0\<close>
  rejects its own promise \<open>3\<close> with an equal value.
\<close>

theorem not_done_distinct_counterexample:
  "pstate_of (invoke_resolver (reject (calls started_one_call ! 0))
                (Str ''Promise has not resolved or rejected'') started_one_call) 1
     = Some (Rejected (Str ''Promise has not resolved or rejected'')) \<and>
   pstate_of started_one_call 0 = None \<and>
   fst (assertDone 0 started_one_call) = 3 \<and>
   pstate_of (step SharedObject (snd (assertDone 0 started_one_call))) 3
     = Some (Rejected (Str ''Promise has not resolved or rejected''))"
  by (simp add: started_one_call_eq race_eval entry_def not_done_def)

text \<open>
  C9, amended. For a promise that is pending when \<open>assertDone\<close> is called, the returned
  promise is rejected with the string "Promise has not resolved or rejected". That value
  differs from every application error other than this same string; in particular it
  differs from every object, such as an Error instance.
\<close>

theorem not_done_distinct:
  assumes "p < length (heap s)"
    and "pstate_of s p = None"
    and "list_all (known_promises (length (heap s))) (queue s)"
    and "assertDone p s = (R, s')"
    and "length (queue s) < n"
  shows "pstate_of (steps i n s') R
           = Some (Rejected (Str ''Promise has not resolved or rejected'')) \<and>
         (\<forall>e. e \<noteq> Str ''Promise has not resolved or rejected'' \<longrightarrow>
              pstate_of (steps i n s') R \<noteq> Some (Rejected e)) \<and>
         (\<forall>k. pstate_of (steps i n s') R \<noteq> Some (Rejected (Obj k)))"
proof -
  have "pstate_of (steps i n s') R = Some (Rejected not_done)"
    using assertDone_decided(2) [OF assms(1) assms(3) assms(4) assms(5), of i] assms(2)
    by simp
  then show ?thesis by (simp add: not_done_def)
qed

theorem not_done_distinct_witness:
  "(0::nat) < length (heap started_one_call) \<and>
   pstate_of started_one_call 0 = None \<and>
   list_all (known_promises (length (heap started_one_call))) (queue started_one_call) \<and>
   length (queue started_one_call) < 1 \<and>
   pstate_of (steps SharedObject 1 (snd (assertDone 0 started_one_call)))
             (fst (assertDone 0 started_one_call))
     = Some (Rejected (Str ''Promise has not resolved or rejected'')) \<and>
   pstate_of (steps SharedObject 1 (snd (assertDone 0 started_one_call)))
             (fst (assertDone 0 started_one_call))
     \<noteq> Some (Rejected bodyErr)"
proof -
  let ?s = "started_one_call"
  have s: "(0::nat) < length (heap ?s)" "pstate_of ?s 0 = None"
    "list_all (known_promises (length (heap ?s))) (queue ?s)"
    "length (queue ?s) < 1"
    by (simp_all add: started_one_call_eq known_promises_def race_eval)
  from not_done_distinct [OF s(1) s(2) s(3) prod.collapse [symmetric] s(4), of SharedObject]
  show ?thesis using s by (simp add: bodyErr_def)
qed

section \<open>Jobs of the function under test\<close>

lemma entries_append:
  "entries k (xs @ ys) = entries k xs @ entries (k + length xs) ys"
proof (induction xs arbitrary: k)
  case Nil
  show ?case by (simp add: entries_Nil)
next
  case (Cons x xs)
  show ?case by (simp add: entries_Cons Cons.IH)
qed

lemma steps_Suc_right: "steps i (Suc n) t = step i (steps i n t)"
  using steps_add [of i n 1 t] by simp

lemma next_tick_eq:
  "next_tick s =
     (length (heap s),
      s\<lparr>calls := [],
        heap := heap s @ [fresh, \<lparr>pstate = Some (Fulfilled Undefined), reactions = []\<rparr>],
        queue := queue s @ [ [Settle (length (heap s)) (Fulfilled Undefined)] ]\<rparr>)"
  by (simp add: next_tick_def Promise_resolve_def new_promise_def reset_def settle_def
                then_react_def nth_append fresh_def)

text \<open>
  A job of the function under test that runs while stubbing is active appends, in
  order, one ledger entry per call it issues, each for a newly allocated promise.
\<close>

lemma run_job_tracking:
  "stub_flag t = Some True \<Longrightarrow> user_job n j \<Longrightarrow>
   stub_flag (run_job i j t) = Some True \<and>
   calls (run_job i j t) = calls t @ entries (length (heap t)) (job_cmds j) \<and>
   length (heap (run_job i j t)) = length (heap t) + length (job_cmds j)"
proof (induction j arbitrary: t)
  case Nil
  show ?case using Nil.prems by (simp add: run_job_Nil entries_Nil)
next
  case (Cons a j)
  have uj: "user_job n j" using Cons.prems(2) by (simp add: user_job_def)
  show ?case
  proof (cases a)
    case (AwaitCall c k)
    let ?u = "exec i (AwaitCall c k) t"
    have u: "stub_flag ?u = Some True" "calls ?u = calls t @ [entry c (length (heap t))]"
      "length (heap ?u) = Suc (length (heap t))"
      using Cons.prems(1) by (simp_all add: exec_AwaitCall_eq del: exec.simps(1))
    from Cons.IH [OF u(1) uj] show ?thesis
      by (simp add: run_job_Cons u AwaitCall entries_Cons del: exec.simps(1))
  next
    case (Settle p out)
    let ?u = "settle p out t"
    have u: "stub_flag ?u = Some True" "calls ?u = calls t"
      "length (heap ?u) = length (heap t)"
      using Cons.prems(1) by (simp_all add: settle_def)
    from Cons.IH [OF u(1) uj] show ?thesis
      by (simp add: run_job_Cons u Settle)
  next
    case Finally_unstub
    with Cons.prems(2) show ?thesis by (simp add: user_job_def)
  qed
qed

lemma steps_prefix_tracking:
  "queue t = js @ rest \<Longrightarrow> stub_flag t = Some True \<Longrightarrow> list_all (user_job n) js \<Longrightarrow>
   stub_flag (steps i (length js) t) = Some True \<and>
   calls (steps i (length js) t)
     = calls t @ entries (length (heap t)) (concat (map job_cmds js)) \<and>
   length (heap (steps i (length js) t))
     = length (heap t) + length (concat (map job_cmds js))"
proof (induction js arbitrary: t rest)
  case Nil
  then show ?case by (simp add: entries_Nil)
next
  case (Cons j js)
  let ?u = "t\<lparr>queue := js @ rest\<rparr>"
  let ?v = "run_job i j ?u"
  have st: "step i t = ?v"
    using Cons.prems(1) by (simp add: step_Cons)
  have uj: "user_job n j" and ujs: "list_all (user_job n) js"
    using Cons.prems(3) by simp_all
  have v: "stub_flag ?v = Some True"
    "calls ?v = calls t @ entries (length (heap t)) (job_cmds j)"
    "length (heap ?v) = length (heap t) + length (job_cmds j)"
    using run_job_tracking [of ?u n j i] Cons.prems(2) uj by simp_all
  obtain x where q: "queue ?v = js @ (rest @ x)"
    using run_job_queue [of i j ?u] by auto
  from Cons.IH [OF q v(1) ujs]
  show ?case by (simp add: st v entries_append)
qed

lemma steps_prefix_queue:
  "queue t = js @ rest \<Longrightarrow> \<exists>x. queue (steps i (length js) t) = rest @ x"
proof (induction js arbitrary: t rest)
  case Nil
  then show ?case by simp
next
  case (Cons j js)
  let ?u = "t\<lparr>queue := js @ rest\<rparr>"
  have st: "step i t = run_job i j ?u"
    using Cons.prems by (simp add: step_Cons)
  obtain x where q: "queue (run_job i j ?u) = js @ (rest @ x)"
    using run_job_queue [of i j ?u] by auto
  from Cons.IH [OF q] show ?case by (auto simp: st)
qed

text \<open>
  Jobs that do not settle \<open>R\<close> leave the promise \<open>R\<close> as it is, its registered reactions
  included.
\<close>

lemma exec_untouched:
  "R < length (heap t) \<Longrightarrow> (\<forall>out. a \<noteq> Settle R out) \<Longrightarrow>
   heap (exec i a t) ! R = heap t ! R"
  by (cases a; cases i)
     (auto simp add: exec_unfold nth_append nth_list_update simp del: exec.simps(1))

lemma run_job_untouched:
  "R < length (heap t) \<Longrightarrow> \<forall>a\<in>set j. \<forall>out. a \<noteq> Settle R out \<Longrightarrow>
   heap (run_job i j t) ! R = heap t ! R"
proof (induction j arbitrary: t)
  case Nil
  show ?case by (simp add: run_job_Nil)
next
  case (Cons a j)
  have len: "R < length (heap (exec i a t))"
    using Cons.prems(1) exec_heap_length [of t i a] by simp
  have "heap (exec i a t) ! R = heap t ! R"
    using Cons.prems by (simp add: exec_untouched)
  moreover have "heap (run_job i j (exec i a t)) ! R = heap (exec i a t) ! R"
    using len Cons.prems(2) by (intro Cons.IH) simp_all
  ultimately show ?case by (simp add: run_job_Cons)
qed

lemma run_job_heap_length: "length (heap t) \<le> length (heap (run_job i j t))"
proof (induction j arbitrary: t)
  case Nil
  show ?case by (simp add: run_job_Nil)
next
  case (Cons a j)
  from exec_heap_length [of t i a] Cons.IH [of "exec i a t"]
  show ?case by (simp add: run_job_Cons)
qed

lemma steps_prefix_untouched:
  "queue t = js @ rest \<Longrightarrow> R < length (heap t) \<Longrightarrow>
   \<forall>j\<in>set js. \<forall>a\<in>set j. \<forall>out. a \<noteq> Settle R out \<Longrightarrow>
   heap (steps i (length js) t) ! R = heap t ! R"
proof (induction js arbitrary: t rest)
  case Nil
  then show ?case by simp
next
  case (Cons j js)
  let ?u = "t\<lparr>queue := js @ rest\<rparr>"
  let ?v = "run_job i j ?u"
  have st: "step i t = ?v"
    using Cons.prems(1) by (simp add: step_Cons)
  obtain x where q: "queue ?v = js @ (rest @ x)"
    using run_job_queue [of i j ?u] by auto
  have len: "R < length (heap ?v)"
    using Cons.prems(2) run_job_heap_length [of ?u i j] by simp
  have same: "heap ?v ! R = heap t ! R"
    using run_job_untouched [of R ?u j i] Cons.prems(2,3) by simp
  have "heap (steps i (length js) ?v) ! R = heap ?v ! R"
  proof (rule Cons.IH)
    show "queue ?v = js @ (rest @ x)" by (rule q)
    show "R < length (heap ?v)" by (rule len)
    show "\<forall>j\<in>set js. \<forall>a\<in>set j. \<forall>out. a \<noteq> Settle R out"
      using Cons.prems(3) by simp
  qed
  then show ?case by (simp add: st same)
qed

lemma user_queue_no_settle:
  assumes "list_all (user_job n) q" and "n \<le> R"
  shows "\<forall>j\<in>set q. \<forall>a\<in>set j. \<forall>out. a \<noteq> Settle R out"
proof
  fix j assume "j \<in> set q"
  with assms(1) have "user_job n j" by (simp add: list_all_iff)
  with assms(2) show "\<forall>a\<in>set j. \<forall>out. a \<noteq> Settle R out"
    by (auto simp: user_job_def list_all_iff)
qed

text \<open>
  The whole tick, for a caller suspended in \<^verbatim>\<open>await next()\<close> with continuation \<open>k\<close>.
  The jobs queued at the call run first; then the job of \<open>next()\<close> fulfils its promise
  and queues the caller's continuation behind the jobs that the first ones have queued
  in the meantime; these run next, and then the caller resumes.
\<close>

lemma next_tick_phases:
  assumes flag: "stub_flag s = Some True"
    and uq: "list_all (user_job (length (heap s))) (queue s)"
    and nt: "next_tick s = (P, s')"
    and u: "u = steps i (length (queue s)) (then_react P k s')"
  shows "calls s' = []" and "pstate_of s' P = None"
    and "queue s' = queue s @ [ [Settle P (Fulfilled Undefined)] ]"
    and "n \<le> length (queue s) \<Longrightarrow> pstate_of (steps i n (then_react P k s')) P = None"
    and "queue u = [Settle P (Fulfilled Undefined)] # tl (queue u)"
    and "calls u = entries (length (heap s')) (concat (map job_cmds (queue s)))"
    and "pstate_of (step i u) P = Some (Fulfilled Undefined)"
    and "calls (step i u) = calls u"
    and "queue (step i u) = tl (queue u) @ [k (Fulfilled Undefined)]"
    and "list_all (user_job m) (tl (queue u)) \<Longrightarrow>
         (\<exists>y. queue (steps i (length (tl (queue u))) (step i u)) = k (Fulfilled Undefined) # y) \<and>
         calls (steps i (length (tl (queue u))) (step i u))
           = entries (length (heap s')) (concat (map job_cmds (queue s @ tl (queue u))))"
proof -
  let ?FU = "Fulfilled Undefined"
  let ?w = "then_react P k s'"
  let ?C1 = "concat (map job_cmds (queue s))"
  from nt have P: "P = length (heap s)"
    and s': "s' = s\<lparr>calls := [],
                    heap := heap s @ [fresh, \<lparr>pstate = Some ?FU, reactions = []\<rparr>],
                    queue := queue s @ [ [Settle (length (heap s)) ?FU] ]\<rparr>"
    by (auto simp: next_tick_eq)
  show c0: "calls s' = []" by (simp add: s')
  show "pstate_of s' P = None"
    by (simp add: s' P pstate_of_def nth_append fresh_def)
  show "queue s' = queue s @ [ [Settle P ?FU] ]" by (simp add: s' P)
  have w: "?w = s'\<lparr>heap := (heap s')[P := \<lparr>pstate = None, reactions = [k]\<rparr>]\<rparr>"
    by (simp add: then_react_def s' P nth_append fresh_def)
  have q: "queue ?w = queue s @ [Settle P ?FU] # []" unfolding w by (simp add: s' P)
  have len: "P < length (heap ?w)" unfolding w by (simp add: s' P)
  have at: "heap ?w ! P = \<lparr>pstate = None, reactions = [k]\<rparr>"
    unfolding w by (simp add: s' P)
  have pend: "pstate_of ?w P = None" using len at by (simp add: pstate_of_def)
  have wflag: "stub_flag ?w = Some True" unfolding w using flag by (simp add: s')
  have wcalls: "calls ?w = []" unfolding w by (simp add: s')
  have wheap: "length (heap ?w) = length (heap s')" unfolding w by simp
  have js: "\<forall>j\<in>set (queue s). \<forall>a\<in>set j. \<forall>out. a \<noteq> Settle P out"
    using uq by (rule user_queue_no_settle) (simp add: P)
  show "pstate_of (steps i n ?w) P = None" if "n \<le> length (queue s)"
    using settle_job_decides(2) [OF q len pend js that] .
  from steps_prefix_pending [OF q len pend js, of i]
  obtain x where x: "queue u = [Settle P ?FU] # x" and ulen: "P < length (heap u)"
    by (auto simp: u)
  show head: "queue u = [Settle P ?FU] # tl (queue u)" by (simp add: x)
  have uat: "heap u ! P = \<lparr>pstate = None, reactions = [k]\<rparr>"
    using steps_prefix_untouched [OF q len js, of i] by (simp add: u at)
  from steps_prefix_tracking [OF q wflag uq, of i]
  have uflag: "stub_flag u = Some True"
    and ucalls: "calls u = entries (length (heap s')) ?C1"
    and uheap: "length (heap u) = length (heap s') + length ?C1"
    by (simp_all add: u wcalls wheap)
  show "calls u = entries (length (heap s')) ?C1" by (rule ucalls)
  have st: "step i u = settle P ?FU (u\<lparr>queue := tl (queue u)\<rparr>)"
    by (simp add: step_Cons [OF head] run_job_Cons run_job_Nil)
  have u2: "step i u = u\<lparr>queue := tl (queue u) @ [k ?FU],
                          heap := (heap u)[P := \<lparr>pstate = Some ?FU, reactions = []\<rparr>]\<rparr>"
    using ulen by (simp add: st settle_def uat)
  show "pstate_of (step i u) P = Some ?FU"
    using ulen by (simp add: u2 pstate_of_def)
  show "calls (step i u) = calls u" by (simp add: u2)
  show q2: "queue (step i u) = tl (queue u) @ [k ?FU]" by (simp add: u2)
  show "(\<exists>y. queue (steps i (length (tl (queue u))) (step i u)) = k ?FU # y) \<and>
        calls (steps i (length (tl (queue u))) (step i u))
          = entries (length (heap s')) (concat (map job_cmds (queue s @ tl (queue u))))"
    if x2: "list_all (user_job m) (tl (queue u))"
  proof -
    have f2: "stub_flag (step i u) = Some True" using uflag by (simp add: u2)
    have h2: "length (heap (step i u)) = length (heap s') + length ?C1"
      using uheap by (simp add: u2)
    have c2: "calls (step i u) = entries (length (heap s')) ?C1"
      using ucalls by (simp add: u2)
    from steps_prefix_queue [OF q2, of i]
    have "\<exists>y. queue (steps i (length (tl (queue u))) (step i u)) = k ?FU # y" by simp
    moreover from steps_prefix_tracking [OF q2 f2 x2, of i]
    have "calls (steps i (length (tl (queue u))) (step i u))
            = entries (length (heap s')) (concat (map job_cmds (queue s @ tl (queue u))))"
      by (simp add: c2 h2 entries_append)
    ultimately show ?thesis by simp
  qed
qed

lemma nested_resolved_eq:
  "nested_resolved =
     \<lparr>calls = [entry spy_cmd 3], stub_flag = Some True,
      heap = [fresh, fresh,
              \<lparr>pstate = None,
               reactions = [\<lambda>out. case out of
                              Fulfilled x \<Rightarrow> [AwaitCall tick_cmd (\<lambda>out2. [Settle (Suc 0) out2])]
                            | Rejected e \<Rightarrow> [Settle (Suc 0) (Rejected e)] ]\<rparr>,
              \<lparr>pstate = Some (Fulfilled (Num 5)), reactions = []\<rparr>],
      queue = [ [Settle 2 (Fulfilled (Num 5))] ], invoked = []\<rparr>"
  by (simp add: nested_resolved_def nested_calls_def one_call_def call_def track_def
                new_promise_def reset_def stub_def init_state_def then_react_def settle_def
                spy_cmd_def entry_def no_context_def plain_def fresh_def)

lemma awaiting_next_eq:
  "awaiting_next =
     \<lparr>calls = [], stub_flag = Some True,
      heap = [fresh, fresh,
              \<lparr>pstate = None,
               reactions = [\<lambda>out. case out of
                              Fulfilled x \<Rightarrow> [AwaitCall tick_cmd (\<lambda>out2. [Settle (Suc 0) out2])]
                            | Rejected e \<Rightarrow> [Settle (Suc 0) (Rejected e)] ]\<rparr>,
              \<lparr>pstate = Some (Fulfilled (Num 5)), reactions = []\<rparr>,
              \<lparr>pstate = None, reactions = [\<lambda>out. [Settle 0 out] ]\<rparr>,
              \<lparr>pstate = Some (Fulfilled Undefined), reactions = []\<rparr>],
      queue = [ [Settle 2 (Fulfilled (Num 5))], [Settle 4 (Fulfilled Undefined)] ],
      invoked = []\<rparr>"
  by (simp add: awaiting_next_def nested_resolved_eq next_tick_eq then_react_def fresh_def)

lemmas tick_eval =
  step_def run_job_def settle_def pstate_of_def fresh_def exec_AwaitCall_eq

section \<open>The claim about the tick\<close>

text \<open>
  C3, as stated, fails for the caller of \<open>next()\<close>. The test has resolved the call of
  the inner function of \<open>nested_calls\<close> and awaits \<open>next()\<close>, whose promise is promise
  \<open>4\<close>. The one continuation scheduled by that resolution issues no call. After it has
  run the promise of \<open>next()\<close> is still pending; the second job fulfils it, with the
  ledger empty, and queues the caller's continuation last, behind the continuation of
  \<open>nested_calls\<close> that the first job has queued. The caller therefore resumes as the
  fourth job, not after one, and finds in the ledger the call that the third job issued.
\<close>

theorem next_tick_resumption_counterexample:
  "map job_cmds (queue nested_resolved) = [ [] ] \<and>
   fst (next_tick nested_resolved) = 4 \<and>
   calls (snd (next_tick nested_resolved)) = [] \<and>
   pstate_of (step SharedObject awaiting_next) 4 = None \<and>
   pstate_of (step SharedObject (step SharedObject awaiting_next)) 4
     = Some (Fulfilled Undefined) \<and>
   calls (step SharedObject (step SharedObject awaiting_next)) = [] \<and>
   length (queue (step SharedObject (step SharedObject awaiting_next))) = 2 \<and>
   last (queue (step SharedObject (step SharedObject awaiting_next)))
     = [Settle 0 (Fulfilled Undefined)] \<and>
   queue (step SharedObject (step SharedObject (step SharedObject awaiting_next)))
     = [ [Settle 0 (Fulfilled Undefined)] ] \<and>
   calls (step SharedObject (step SharedObject (step SharedObject awaiting_next)))
     = [entry tick_cmd 6]"
  by (simp add: nested_resolved_eq awaiting_next_eq next_tick_eq tick_eval eval_nat_numeral
           del: exec.simps(1))

text \<open>
  C3, amended. \<open>next()\<close> clears the ledger first and then suspends behind exactly the
  jobs queued at that moment, by one job of its own: its promise is pending while those
  jobs run, and the ledger then holds exactly the calls they issued. That job fulfils the
  promise of \<open>next()\<close>, adds nothing to the ledger, and queues the continuation of a
  caller suspended in \<^verbatim>\<open>await next()\<close> behind the jobs that the first ones have queued
  in the meantime. So the caller resumes after these further jobs as well, and finds in
  the ledger exactly the calls issued since the reset by the jobs of both generations,
  in order, every entry made for a promise allocated after the reset; no call recorded
  before the tick is left.
\<close>

theorem next_tick_resumption:
  assumes "stub_flag s = Some True"
    and "list_all (user_job (length (heap s))) (queue s)"
    and "next_tick s = (P, s')"
    and "u = steps i (length (queue s)) (then_react P k s')"
  shows "calls s' = [] \<and> pstate_of s' P = None \<and>
         queue s' = queue s @ [ [Settle P (Fulfilled Undefined)] ] \<and>
         (\<forall>n\<le>length (queue s). pstate_of (steps i n (then_react P k s')) P = None) \<and>
         queue u = [Settle P (Fulfilled Undefined)] # tl (queue u) \<and>
         calls u = entries (length (heap s')) (concat (map job_cmds (queue s))) \<and>
         pstate_of (step i u) P = Some (Fulfilled Undefined) \<and>
         calls (step i u) = calls u \<and>
         queue (step i u) = tl (queue u) @ [k (Fulfilled Undefined)] \<and>
         (list_all (user_job (length (heap u))) (tl (queue u)) \<longrightarrow>
            (\<exists>y. queue (steps i (length (tl (queue u))) (step i u))
                   = k (Fulfilled Undefined) # y) \<and>
            calls (steps i (length (tl (queue u))) (step i u))
              = entries (length (heap s'))
                  (concat (map job_cmds (queue s @ tl (queue u)))))"
proof -
  note ph = next_tick_phases [OF assms]
  have "\<forall>n\<le>length (queue s). pstate_of (steps i n (then_react P k s')) P = None"
    using ph(4) by blast
  moreover have "list_all (user_job (length (heap u))) (tl (queue u)) \<longrightarrow>
      (\<exists>y. queue (steps i (length (tl (queue u))) (step i u)) = k (Fulfilled Undefined) # y) \<and>
      calls (steps i (length (tl (queue u))) (step i u))
        = entries (length (heap s')) (concat (map job_cmds (queue s @ tl (queue u))))"
    using ph(10) [of "length (heap u)"] by blast
  ultimately show ?thesis
    using ph(1) ph(2) ph(3) ph(5) ph(6) ph(7) ph(8) ph(9) by (intro conjI)
qed

theorem next_tick_resumption_witness:
  "stub_flag nested_resolved = Some True \<and>
   list_all (user_job (length (heap nested_resolved))) (queue nested_resolved) \<and>
   map job_cmds (queue nested_resolved) = [ [] ] \<and>
   list_all (user_job (length (heap (step SharedObject awaiting_next))))
            (tl (queue (step SharedObject awaiting_next))) \<and>
   map job_cmds (tl (queue (step SharedObject awaiting_next))) = [ [tick_cmd] ] \<and>
   calls (step SharedObject awaiting_next) = [] \<and>
   calls (step SharedObject (step SharedObject awaiting_next)) = [] \<and>
   hd (queue (step SharedObject (step SharedObject (step SharedObject awaiting_next))))
     = [Settle 0 (Fulfilled Undefined)] \<and>
   calls (step SharedObject (step SharedObject (step SharedObject awaiting_next)))
     = [entry tick_cmd 6]"
proof -
  let ?nt = "next_tick nested_resolved"
  let ?k = "\<lambda>out. [Settle 0 out]"
  let ?u = "step SharedObject awaiting_next"
  have h1: "stub_flag nested_resolved = Some True"
    and h2: "list_all (user_job (length (heap nested_resolved))) (queue nested_resolved)"
    and l: "length (queue nested_resolved) = Suc 0"
    and m1: "map job_cmds (queue nested_resolved) = [ [] ]"
    by (simp_all add: nested_resolved_eq user_job_def)
  have aw: "then_react (fst ?nt) ?k (snd ?nt) = awaiting_next"
    by (simp add: awaiting_next_def split_def Let_def)
  have hs: "length (heap (snd ?nt)) = 6"
    by (simp add: nested_resolved_eq next_tick_eq)
  have h3: "list_all (user_job (length (heap ?u))) (tl (queue ?u))"
    and lu: "length (tl (queue ?u)) = Suc 0"
    and m2: "map job_cmds (tl (queue ?u)) = [ [tick_cmd] ]"
    by (simp_all add: awaiting_next_eq tick_eval user_job_def)
  note w = next_tick_resumption [OF h1 h2 prod.collapse [symmetric] refl,
                                 of SharedObject ?k, unfolded l steps.simps aw]
  have c1: "calls ?u = []"
    using w [THEN conjunct2, THEN conjunct2, THEN conjunct2, THEN conjunct2, THEN conjunct2, THEN conjunct1] by (simp add: m1 entries_Nil)
  have c2: "calls (step SharedObject ?u) = []"
    using w [THEN conjunct2, THEN conjunct2, THEN conjunct2, THEN conjunct2, THEN conjunct2, THEN conjunct2, THEN conjunct2, THEN conjunct1] c1 by simp
  note r = w [THEN conjunct2, THEN conjunct2, THEN conjunct2, THEN conjunct2, THEN conjunct2, THEN conjunct2, THEN conjunct2, THEN conjunct2, THEN conjunct2, THEN mp, OF h3, unfolded lu steps.simps]
  from r have "\<exists>y. queue (step SharedObject (step SharedObject ?u))
                    = [Settle 0 (Fulfilled Undefined)] # y"
    by (rule conjunct1)
  then have c3: "hd (queue (step SharedObject (step SharedObject ?u)))
                   = [Settle 0 (Fulfilled Undefined)]"
    by auto
  from r have "calls (step SharedObject (step SharedObject ?u))
      = entries (length (heap (snd ?nt)))
          (concat (map job_cmds (queue nested_resolved @ tl (queue ?u))))"
    by (rule conjunct2)
  then have c4: "calls (step SharedObject (step SharedObject ?u)) = [entry tick_cmd 6]"
    by (simp add: hs m1 m2 entries_Cons entries_Nil)
  show ?thesis
    by (intro conjI) (fact h1 h2 m1 h3 m2 c1 c2 c3 c4)+
qed

section \<open>withStub\<close>

lemma withStub_returned:
  "f (reset (stub (snd (new_promise s)))) = (Inr b, s3) \<Longrightarrow>
   withStub f s = (length (heap s), then_react b (\<lambda>out. [Finally_unstub, Settle (length (heap s)) out]) s3)"
  by (simp add: withStub_def new_promise_def)

lemma withStub_thrown:
  "f (reset (stub (snd (new_promise s)))) = (Inl e, s3) \<Longrightarrow>
   withStub f s = (length (heap s), settle (length (heap s)) (Rejected e) (unstub s3))"
  by (simp add: withStub_def new_promise_def)

lemma withStub_closure_returned:
  "f (reset (stub_closure (snd (new_promise s)))) = (Inr b, s3) \<Longrightarrow>
   withStub_closure f s
     = (length (heap s), then_react b (\<lambda>out. [Finally_unstub, Settle (length (heap s)) out]) s3)"
  by (simp add: withStub_closure_def new_promise_def)

lemma withStub_closure_thrown:
  "f (reset (stub_closure (snd (new_promise s)))) = (Inl e, s3) \<Longrightarrow>
   withStub_closure f s
     = (length (heap s), settle (length (heap s)) (Rejected e) (unstub_closure s3))"
  by (simp add: withStub_closure_def new_promise_def)

lemma then_react_settled:
  "b < length (heap s3) \<Longrightarrow> pstate_of s3 b = Some out \<Longrightarrow>
   then_react b k s3 = s3\<lparr>queue := queue s3 @ [k out]\<rparr>"
  by (simp add: then_react_def pstate_of_def)

lemma then_react_pending:
  "b < length (heap s3) \<Longrightarrow> pstate_of s3 b = None \<Longrightarrow>
   queue (settle b out (then_react b k s3))
     = queue s3 @ map (\<lambda>r. r out) (reactions_of s3 b) @ [k out]"
  by (simp add: then_react_def pstate_of_def reactions_of_def settle_def)

text \<open>
  The reaction that \<open>withStub\<close> leaves on the body's promise, once queued behind jobs
  that do not settle the promise \<open>P\<close> of \<open>withStub\<close>: \<open>P\<close> is pending until the jobs before
  it have run, and the job itself first runs \<open>unstub\<close> and then settles \<open>P\<close>.
\<close>

lemma teardown_job_runs:
  assumes q: "queue t = js @ [Finally_unstub, Settle P out] # rest"
    and P: "P < length (heap t)" "pstate_of t P = None"
    and js: "\<forall>j\<in>set js. \<forall>a\<in>set j. \<forall>out'. a \<noteq> Settle P out'"
  shows "n \<le> length js \<Longrightarrow> pstate_of (steps i n t) P = None"
    and "\<exists>v. P < length (heap v) \<and> pstate_of v P = None \<and>
             steps SharedObject (Suc (length js)) t = settle P out (unstub v)"
    and "\<exists>v. P < length (heap v) \<and> pstate_of v P = None \<and>
             calls v = calls (steps Closure (length js) t) \<and>
             steps Closure (Suc (length js)) t = settle P out (unstub_closure v)"
proof -
  show "pstate_of (steps i n t) P = None" if "n \<le> length js"
  proof -
    have q': "queue t = take n js @ (drop n js @ [Finally_unstub, Settle P out] # rest)"
      using q by (simp only: append_assoc [symmetric] append_take_drop_id)
    have tk: "\<forall>j\<in>set (take n js). \<forall>a\<in>set j. \<forall>out'. a \<noteq> Settle P out'"
    proof
      fix j assume "j \<in> set (take n js)"
      then have "j \<in> set js" by (rule in_set_takeD)
      with js show "\<forall>a\<in>set j. \<forall>out'. a \<noteq> Settle P out'" by blast
    qed
    have len: "length (take n js) = n" using that by simp
    from steps_prefix_pending [OF q' P tk, of i]
    show ?thesis unfolding len by blast
  qed
  have run: "\<exists>x. queue (steps i (length js) t) = [Finally_unstub, Settle P out] # x \<and>
                 P < length (heap (steps i (length js) t)) \<and>
                 pstate_of (steps i (length js) t) P = None" for i
    using steps_prefix_pending [OF q P js, of i] by auto
  show "\<exists>v. P < length (heap v) \<and> pstate_of v P = None \<and>
            steps SharedObject (Suc (length js)) t = settle P out (unstub v)"
  proof -
    let ?u = "steps SharedObject (length js) t"
    from run [of SharedObject] obtain x where
      u: "queue ?u = [Finally_unstub, Settle P out] # x" "P < length (heap ?u)"
         "pstate_of ?u P = None"
      by blast
    have "steps SharedObject (Suc (length js)) t = settle P out (unstub (?u\<lparr>queue := x\<rparr>))"
      by (simp add: steps_Suc_right step_Cons [OF u(1)] run_job_Cons run_job_Nil
               del: steps.simps)
    moreover have "P < length (heap (?u\<lparr>queue := x\<rparr>))" using u(2) by simp
    moreover have "pstate_of (?u\<lparr>queue := x\<rparr>) P = None"
      using u(3) by (simp add: pstate_of_queue_update)
    ultimately show ?thesis by blast
  qed
  show "\<exists>v. P < length (heap v) \<and> pstate_of v P = None \<and>
            calls v = calls (steps Closure (length js) t) \<and>
            steps Closure (Suc (length js)) t = settle P out (unstub_closure v)"
  proof -
    let ?u = "steps Closure (length js) t"
    from run [of Closure] obtain x where
      u: "queue ?u = [Finally_unstub, Settle P out] # x" "P < length (heap ?u)"
         "pstate_of ?u P = None"
      by blast
    have "steps Closure (Suc (length js)) t = settle P out (unstub_closure (?u\<lparr>queue := x\<rparr>))"
      by (simp add: steps_Suc_right step_Cons [OF u(1)] run_job_Cons run_job_Nil
               del: steps.simps)
    moreover have "P < length (heap (?u\<lparr>queue := x\<rparr>))" using u(2) by simp
    moreover have "pstate_of (?u\<lparr>queue := x\<rparr>) P = None"
      using u(3) by (simp add: pstate_of_queue_update)
    moreover have "calls (?u\<lparr>queue := x\<rparr>) = calls ?u" by simp
    ultimately show ?thesis by blast
  qed
qed

lemma settle_after_unstub:
  "P < length (heap v) \<Longrightarrow> pstate_of v P = None \<Longrightarrow>
   stub_flag (settle P out (unstub v)) = Some False \<and>
   calls (settle P out (unstub v)) = [] \<and>
   pstate_of (settle P out (unstub v)) P = Some out"
  by (simp add: settle_def unstub_def reset_def pstate_of_def)

lemma settle_after_unstub_closure:
  "P < length (heap v) \<Longrightarrow> pstate_of v P = None \<Longrightarrow>
   stub_flag (settle P out (unstub_closure v)) = None \<and>
   calls (settle P out (unstub_closure v)) = calls v \<and>
   pstate_of (settle P out (unstub_closure v)) P = Some out"
  by (simp add: settle_def unstub_closure_def setStub_def pstate_of_def)

lemma settles_not_queue:
  assumes "list_all (settles_not P) q"
  shows "\<forall>j\<in>set q. \<forall>a\<in>set j. \<forall>out. a \<noteq> Settle P out"
proof
  fix j assume "j \<in> set q"
  with assms have "settles_not P j" by (simp add: list_all_iff)
  then show "\<forall>a\<in>set j. \<forall>out. a \<noteq> Settle P out"
    by (auto simp: settles_not_def list_all_iff)
qed

lemma failing_shared_eq:
  "withStub (failing_body SharedObject) init_state =
     (0, \<lparr>calls = [entry spy_cmd 1], stub_flag = Some True,
          heap = [fresh, fresh, \<lparr>pstate = Some (Rejected bodyErr), reactions = []\<rparr>],
          queue = [ [Finally_unstub, Settle 0 (Rejected bodyErr)] ], invoked = []\<rparr>)"
  by (simp add: withStub_def failing_body_def call_def track_def new_promise_def
                Promise_reject_def reset_def stub_def init_state_def then_react_def settle_def
                spy_cmd_def entry_def no_context_def plain_def fresh_def)

lemma failing_closure_eq:
  "withStub_closure (failing_body Closure) init_state =
     (0, \<lparr>calls = [entry spy_cmd 1], stub_flag = Some True,
          heap = [fresh, fresh, \<lparr>pstate = Some (Rejected bodyErr), reactions = []\<rparr>],
          queue = [ [Finally_unstub, Settle 0 (Rejected bodyErr)] ], invoked = []\<rparr>)"
  by (simp add: withStub_closure_def failing_body_def call_def track_closure_def new_promise_def
                Promise_reject_def reset_def stub_closure_def setStub_def init_state_def
                then_react_def settle_def spy_cmd_def entry_def no_context_def plain_def
                fresh_def)

lemma test_shared_eq:
  "withStub (test_body SharedObject) init_state =
     (0, \<lparr>calls = [entry spy_cmd 1], stub_flag = Some True,
          heap = [fresh,
                  \<lparr>pstate = None,
                   reactions = [\<lambda>out. case out of Fulfilled v \<Rightarrow> []
                                           | Rejected e \<Rightarrow> [Settle (Suc (Suc (Suc 0))) (Rejected e)] ]\<rparr>,
                  \<lparr>pstate = Some (Rejected bodyErr), reactions = []\<rparr>,
                  \<lparr>pstate = None,
                   reactions = [\<lambda>out. [Finally_unstub, Settle 0 out] ]\<rparr>],
          queue = [ [Settle 3 (Rejected bodyErr)] ], invoked = []\<rparr>)"
  by (simp add: withStub_def test_body_def call_def track_def new_promise_def
                Promise_reject_def reset_def stub_def init_state_def then_react_def settle_def
                spy_cmd_def entry_def no_context_def plain_def fresh_def)

lemma test_closure_eq:
  "withStub_closure (test_body Closure) init_state =
     (0, \<lparr>calls = [entry spy_cmd 1], stub_flag = Some True,
          heap = [fresh,
                  \<lparr>pstate = None,
                   reactions = [\<lambda>out. case out of Fulfilled v \<Rightarrow> []
                                           | Rejected e \<Rightarrow> [Settle (Suc (Suc (Suc 0))) (Rejected e)] ]\<rparr>,
                  \<lparr>pstate = Some (Rejected bodyErr), reactions = []\<rparr>,
                  \<lparr>pstate = None,
                   reactions = [\<lambda>out. [Finally_unstub, Settle 0 out] ]\<rparr>],
          queue = [ [Settle 3 (Rejected bodyErr)] ], invoked = []\<rparr>)"
  by (simp add: withStub_closure_def test_body_def call_def track_closure_def new_promise_def
                Promise_reject_def reset_def stub_closure_def setStub_def init_state_def
                then_react_def settle_def spy_cmd_def entry_def no_context_def plain_def
                fresh_def)

lemma then_react_registered:
  "b < length (heap s3) \<Longrightarrow> pstate_of s3 b = None \<Longrightarrow>
   then_react b k s3
     = s3\<lparr>heap := (heap s3)[b := (heap s3 ! b)\<lparr>reactions := reactions (heap s3 ! b) @ [k]\<rparr>]\<rparr>"
  by (simp add: then_react_def pstate_of_def)

text \<open>
  What running the queue up to and including the teardown job of \<open>withStub\<close> achieves,
  in either implementation.
\<close>

lemma teardown_job_result:
  assumes q: "queue t = js @ [Finally_unstub, Settle Q out] # rest"
    and Q: "Q < length (heap t)" "pstate_of t Q = None"
    and sn: "list_all (settles_not Q) js"
  shows "(\<forall>n\<le>length js. pstate_of (steps SharedObject n t) Q = None \<and>
                         pstate_of (steps Closure n t) Q = None) \<and>
         stub_flag (steps SharedObject (Suc (length js)) t) = Some False \<and>
         calls (steps SharedObject (Suc (length js)) t) = [] \<and>
         pstate_of (steps SharedObject (Suc (length js)) t) Q = Some out \<and>
         stub_flag (steps Closure (Suc (length js)) t) = None \<and>
         calls (steps Closure (Suc (length js)) t) = calls (steps Closure (length js) t) \<and>
         pstate_of (steps Closure (Suc (length js)) t) Q = Some out"
proof -
  have js: "\<forall>j\<in>set js. \<forall>a\<in>set j. \<forall>out'. a \<noteq> Settle Q out'"
    using sn by (rule settles_not_queue)
  note run = teardown_job_runs [OF q Q js]
  have before: "\<forall>n\<le>length js. pstate_of (steps SharedObject n t) Q = None \<and>
                                 pstate_of (steps Closure n t) Q = None"
    using run(1) by blast
  from run(2) obtain v where v: "Q < length (heap v)" "pstate_of v Q = None"
    "steps SharedObject (Suc (length js)) t = settle Q out (unstub v)"
    by blast
  from run(3) obtain w where w: "Q < length (heap w)" "pstate_of w Q = None"
    "calls w = calls (steps Closure (length js) t)"
    "steps Closure (Suc (length js)) t = settle Q out (unstub_closure w)"
    by blast
  show ?thesis
    using before settle_after_unstub [OF v(1) v(2), of out]
      settle_after_unstub_closure [OF w(1) w(2), of out]
    by (simp only: v(3) w(3) w(4))
qed

text \<open>
  The same from the moment the body's promise \<open>b\<close> settles, in a state in which the
  reaction of \<open>withStub\<close> is the last one registered on \<open>b\<close>.
\<close>

lemma teardown_after_settle:
  assumes b: "b < length (heap t)" "pstate_of t b = None"
    and rs: "reactions_of t b = rs @ [\<lambda>z. [Finally_unstub, Settle Q z] ]"
    and Q: "Q < length (heap t)" "pstate_of t Q = None" "Q \<noteq> b"
    and sq: "list_all (settles_not Q) (queue t)"
    and sr: "list_all (settles_not Q) (map (\<lambda>r. r out) rs)"
  shows "(\<forall>n\<le>length (queue t) + length rs.
            pstate_of (steps SharedObject n (settle b out t)) Q = None \<and>
            pstate_of (steps Closure n (settle b out t)) Q = None) \<and>
         stub_flag (steps SharedObject (Suc (length (queue t) + length rs)) (settle b out t))
           = Some False \<and>
         calls (steps SharedObject (Suc (length (queue t) + length rs)) (settle b out t)) = [] \<and>
         pstate_of (steps SharedObject (Suc (length (queue t) + length rs)) (settle b out t)) Q
           = Some out \<and>
         stub_flag (steps Closure (Suc (length (queue t) + length rs)) (settle b out t)) = None \<and>
         calls (steps Closure (Suc (length (queue t) + length rs)) (settle b out t))
           = calls (steps Closure (length (queue t) + length rs) (settle b out t)) \<and>
         pstate_of (steps Closure (Suc (length (queue t) + length rs)) (settle b out t)) Q
           = Some out"
proof -
  let ?t = "settle b out t"
  let ?js = "queue t @ map (\<lambda>r. r out) rs"
  have rb: "reactions (heap t ! b) = rs @ [\<lambda>z. [Finally_unstub, Settle Q z] ]"
    using rs b(1) by (simp add: reactions_of_def)
  have pb: "pstate (heap t ! b) = None"
    using b by (simp add: pstate_of_def)
  have t': "?t = t\<lparr>heap := (heap t)[b := \<lparr>pstate = Some out, reactions = []\<rparr>],
                   queue := queue t @ map (\<lambda>r. r out) (rs @ [\<lambda>z. [Finally_unstub, Settle Q z] ])\<rparr>"
    using b(1) pb by (simp add: settle_def rb)
  have q: "queue ?t = ?js @ [Finally_unstub, Settle Q out] # []"
    unfolding t' by simp
  have Q1: "Q < length (heap ?t)" unfolding t' using Q(1) by simp
  have Q2: "pstate_of ?t Q = None"
    unfolding t' using Q by (simp add: pstate_of_def)
  have sn: "list_all (settles_not Q) ?js" using sq sr by simp
  have len: "length ?js = length (queue t) + length rs" by simp
  from teardown_job_result [OF q Q1 Q2 sn] show ?thesis
    unfolding len .
qed

text \<open>
  Both implementations end \<open>withStub\<close>, for a body that returns, with
  \<open>then_react b (\<lambda>z. [Finally_unstub, Settle P z])\<close> on the state the body left. What
  follows from there, for a body whose promise is settled at that moment and for one
  whose promise is still pending.
\<close>

lemma returned_body_teardown:
  assumes b: "b < length (heap s3)"
    and P: "P < length (heap s3)" "pstate_of s3 P = None"
    and sq: "list_all (settles_not P) (queue s3)"
    and s': "s' = then_react b (\<lambda>z. [Finally_unstub, Settle P z]) s3"
  shows "pstate_of s3 b = Some out \<Longrightarrow>
           s' = s3\<lparr>queue := queue s3 @ [ [Finally_unstub, Settle P out] ]\<rparr>"
    and "pstate_of s3 b = Some out \<Longrightarrow>
           (\<forall>n\<le>length (queue s3). pstate_of (steps SharedObject n s') P = None \<and>
                                    pstate_of (steps Closure n s') P = None) \<and>
           stub_flag (steps SharedObject (Suc (length (queue s3))) s') = Some False \<and>
           calls (steps SharedObject (Suc (length (queue s3))) s') = [] \<and>
           pstate_of (steps SharedObject (Suc (length (queue s3))) s') P = Some out \<and>
           stub_flag (steps Closure (Suc (length (queue s3))) s') = None \<and>
           calls (steps Closure (Suc (length (queue s3))) s')
             = calls (steps Closure (length (queue s3)) s') \<and>
           pstate_of (steps Closure (Suc (length (queue s3))) s') P = Some out"
    and "pstate_of s3 b = None \<Longrightarrow>
           s' = s3\<lparr>heap := (heap s3)[b := (heap s3 ! b)
                   \<lparr>reactions := reactions (heap s3 ! b) @ [\<lambda>z. [Finally_unstub, Settle P z] ]\<rparr>]\<rparr>"
    and "pstate_of s3 b = None \<Longrightarrow>
           pstate_of s' P = None \<and> pstate_of s' b = None \<and>
           reactions_of s' b = reactions_of s3 b @ [\<lambda>z. [Finally_unstub, Settle P z] ]"
    and "pstate_of s3 b = None \<Longrightarrow> b \<noteq> P \<Longrightarrow>
         list_all (settles_not P) (map (\<lambda>r. r out) (reactions_of s3 b)) \<Longrightarrow>
           (\<forall>n\<le>length (queue s3) + length (reactions_of s3 b).
              pstate_of (steps SharedObject n (settle b out s')) P = None \<and>
              pstate_of (steps Closure n (settle b out s')) P = None) \<and>
           stub_flag (steps SharedObject (Suc (length (queue s3) + length (reactions_of s3 b)))
                        (settle b out s')) = Some False \<and>
           calls (steps SharedObject (Suc (length (queue s3) + length (reactions_of s3 b)))
                    (settle b out s')) = [] \<and>
           pstate_of (steps SharedObject (Suc (length (queue s3) + length (reactions_of s3 b)))
                        (settle b out s')) P = Some out \<and>
           stub_flag (steps Closure (Suc (length (queue s3) + length (reactions_of s3 b)))
                        (settle b out s')) = None \<and>
           calls (steps Closure (Suc (length (queue s3) + length (reactions_of s3 b)))
                    (settle b out s'))
             = calls (steps Closure (length (queue s3) + length (reactions_of s3 b))
                        (settle b out s')) \<and>
           pstate_of (steps Closure (Suc (length (queue s3) + length (reactions_of s3 b)))
                        (settle b out s')) P = Some out"
proof -
  let ?k = "\<lambda>z. [Finally_unstub, Settle P z]"
  show set: "s' = s3\<lparr>queue := queue s3 @ [ [Finally_unstub, Settle P out] ]\<rparr>"
    if "pstate_of s3 b = Some out"
    using then_react_settled [OF b that, of ?k] by (simp add: s')
  show "(\<forall>n\<le>length (queue s3). pstate_of (steps SharedObject n s') P = None \<and>
                                  pstate_of (steps Closure n s') P = None) \<and>
        stub_flag (steps SharedObject (Suc (length (queue s3))) s') = Some False \<and>
        calls (steps SharedObject (Suc (length (queue s3))) s') = [] \<and>
        pstate_of (steps SharedObject (Suc (length (queue s3))) s') P = Some out \<and>
        stub_flag (steps Closure (Suc (length (queue s3))) s') = None \<and>
        calls (steps Closure (Suc (length (queue s3))) s')
          = calls (steps Closure (length (queue s3)) s') \<and>
        pstate_of (steps Closure (Suc (length (queue s3))) s') P = Some out"
    if "pstate_of s3 b = Some out"
  proof -
    note e = set [OF that]
    have q: "queue s' = queue s3 @ [Finally_unstub, Settle P out] # []"
      unfolding e by simp
    have P1: "P < length (heap s')" unfolding e using P(1) by simp
    have P2: "pstate_of s' P = None"
      unfolding e using P by (simp add: pstate_of_def)
    from teardown_job_result [OF q P1 P2 sq] show ?thesis .
  qed
  show reg: "s' = s3\<lparr>heap := (heap s3)[b := (heap s3 ! b)
                     \<lparr>reactions := reactions (heap s3 ! b) @ [?k]\<rparr>]\<rparr>"
    if "pstate_of s3 b = None"
    using then_react_registered [OF b that, of ?k] by (simp add: s')
  show link: "pstate_of s' P = None \<and> pstate_of s' b = None \<and>
              reactions_of s' b = reactions_of s3 b @ [?k]"
    if "pstate_of s3 b = None"
  proof -
    note e = reg [OF that]
    have "pstate_of s' P = None"
      unfolding e using P that b
      by (cases "P = b") (simp_all add: pstate_of_def)
    moreover have "pstate_of s' b = None"
      unfolding e using that b by (simp add: pstate_of_def)
    moreover have "reactions_of s' b = reactions_of s3 b @ [?k]"
      unfolding e using b by (simp add: reactions_of_def)
    ultimately show ?thesis by simp
  qed
  show "(\<forall>n\<le>length (queue s3) + length (reactions_of s3 b).
           pstate_of (steps SharedObject n (settle b out s')) P = None \<and>
           pstate_of (steps Closure n (settle b out s')) P = None) \<and>
        stub_flag (steps SharedObject (Suc (length (queue s3) + length (reactions_of s3 b)))
                     (settle b out s')) = Some False \<and>
        calls (steps SharedObject (Suc (length (queue s3) + length (reactions_of s3 b)))
                 (settle b out s')) = [] \<and>
        pstate_of (steps SharedObject (Suc (length (queue s3) + length (reactions_of s3 b)))
                     (settle b out s')) P = Some out \<and>
        stub_flag (steps Closure (Suc (length (queue s3) + length (reactions_of s3 b)))
                     (settle b out s')) = None \<and>
        calls (steps Closure (Suc (length (queue s3) + length (reactions_of s3 b)))
                 (settle b out s'))
          = calls (steps Closure (length (queue s3) + length (reactions_of s3 b))
                     (settle b out s')) \<and>
        pstate_of (steps Closure (Suc (length (queue s3) + length (reactions_of s3 b)))
                     (settle b out s')) P = Some out"
    if pend: "pstate_of s3 b = None" and ne: "b \<noteq> P"
      and sr: "list_all (settles_not P) (map (\<lambda>r. r out) (reactions_of s3 b))"
  proof -
    note e = reg [OF pend]
    note l = link [OF pend]
    have b1: "b < length (heap s')" unfolding e using b by simp
    have P1: "P < length (heap s')" unfolding e using P(1) by simp
    have q1: "queue s' = queue s3" unfolding e by simp
    have sq1: "list_all (settles_not P) (queue s')" using sq by (simp add: q1)
    have ne': "P \<noteq> b" using ne by simp
    from teardown_after_settle [OF b1 l [THEN conjunct2, THEN conjunct1]
                                  l [THEN conjunct2, THEN conjunct2]
                                  P1 l [THEN conjunct1] ne' sq1 sr]
    show ?thesis unfolding q1 .
  qed
qed

section \<open>The claim about withStub\<close>

text \<open>
  C2, as stated, fails for the closure-based module, whose \<open>unstub()\<close> does not clear the
  ledger. A body that issues one call and returns an already rejected promise, and the
  body of the test "withStub resets in the event of error", whose promise is rejected by
  the first queued job: in both runs, when the teardown job of \<open>withStub\<close> has run,
  stubbing is off and the promise of \<open>withStub\<close> (promise \<open>0\<close>) is rejected with the
  body's error, and the call is still in the ledger.
\<close>

theorem withStub_teardown_counterexample:
  "fst (withStub_closure (failing_body Closure) init_state) = 0 \<and>
   pstate_of (snd (withStub_closure (failing_body Closure) init_state)) 0 = None \<and>
   pstate_of (step Closure (snd (withStub_closure (failing_body Closure) init_state))) 0
     = Some (Rejected bodyErr) \<and>
   stub_flag (step Closure (snd (withStub_closure (failing_body Closure) init_state))) = None \<and>
   calls (step Closure (snd (withStub_closure (failing_body Closure) init_state)))
     = [entry spy_cmd 1] \<and>
   calls (step Closure (snd (withStub_closure (failing_body Closure) init_state))) \<noteq> [] \<and>
   fst (withStub_closure (test_body Closure) init_state) = 0 \<and>
   pstate_of (step Closure (step Closure
                (snd (withStub_closure (test_body Closure) init_state)))) 0
     = Some (Rejected bodyErr) \<and>
   stub_flag (step Closure (step Closure
                (snd (withStub_closure (test_body Closure) init_state)))) = None \<and>
   calls (step Closure (step Closure
            (snd (withStub_closure (test_body Closure) init_state))))
     = [entry spy_cmd 1]"
  by (simp add: failing_closure_eq test_closure_eq step_def run_job_def unstub_closure_def
                setStub_def settle_def pstate_of_def fresh_def)

text \<open>
  C2, amended. For every test body, in both implementations, \<open>withStub\<close> tears the
  session down before it passes on the body's outcome, unchanged. When the body's promise
  is already settled as the body returns, the teardown job is queued at once; when it is
  still pending, the promise of \<open>withStub\<close> stays pending and the teardown is registered
  on the body's promise, so that the job is queued when that promise settles, now or in
  any later state. In either case the promise of \<open>withStub\<close> is pending until the
  teardown job runs, and when it has run, whether the outcome is a fulfilment or a
  rejection, stubbing is off and the promise of \<open>withStub\<close> has the body's outcome. In
  \<^verbatim>\<open>stub.ts\<close> the ledger is empty at that point; in the closure-based module the job
  leaves the ledger as it was. A body that throws is torn down in the same way at once.
\<close>

theorem withStub_teardown:
  "(f (reset (stub (snd (new_promise s)))) = (Inr b, s3) \<and> b < length (heap s3) \<and>
    length (heap s) < length (heap s3) \<and> pstate_of s3 (length (heap s)) = None \<and>
    list_all (settles_not (length (heap s))) (queue s3) \<and> withStub f s = (P, s') \<longrightarrow>
       P = length (heap s) \<and>
       (pstate_of s3 b = Some out \<longrightarrow>
          s' = s3\<lparr>queue := queue s3 @ [ [Finally_unstub, Settle P out] ]\<rparr> \<and>
          (\<forall>n\<le>length (queue s3). pstate_of (steps SharedObject n s') P = None) \<and>
          stub_flag (steps SharedObject (Suc (length (queue s3))) s') = Some False \<and>
          calls (steps SharedObject (Suc (length (queue s3))) s') = [] \<and>
          pstate_of (steps SharedObject (Suc (length (queue s3))) s') P = Some out) \<and>
       (pstate_of s3 b = None \<longrightarrow>
          s' = s3\<lparr>heap := (heap s3)[b := (heap s3 ! b)
            \<lparr>reactions := reactions (heap s3 ! b) @ [\<lambda>z. [Finally_unstub, Settle P z] ]\<rparr>]\<rparr> \<and>
          pstate_of s' P = None \<and> pstate_of s' b = None \<and>
          reactions_of s' b = reactions_of s3 b @ [\<lambda>z. [Finally_unstub, Settle P z] ] \<and>
          (b \<noteq> P \<and> list_all (settles_not P) (map (\<lambda>r. r out) (reactions_of s3 b)) \<longrightarrow>
             (\<forall>n\<le>length (queue s3) + length (reactions_of s3 b). pstate_of (steps SharedObject n (settle b out s')) P = None) \<and>
             stub_flag (steps SharedObject (Suc (length (queue s3) + length (reactions_of s3 b))) (settle b out s')) = Some False \<and>
             calls (steps SharedObject (Suc (length (queue s3) + length (reactions_of s3 b))) (settle b out s')) = [] \<and>
             pstate_of (steps SharedObject (Suc (length (queue s3) + length (reactions_of s3 b))) (settle b out s')) P = Some out))) \<and>
   (g (reset (stub_closure (snd (new_promise s)))) = (Inr b, s3) \<and> b < length (heap s3) \<and>
    length (heap s) < length (heap s3) \<and> pstate_of s3 (length (heap s)) = None \<and>
    list_all (settles_not (length (heap s))) (queue s3) \<and> withStub_closure g s = (P, s') \<longrightarrow>
       P = length (heap s) \<and>
       (pstate_of s3 b = Some out \<longrightarrow>
          s' = s3\<lparr>queue := queue s3 @ [ [Finally_unstub, Settle P out] ]\<rparr> \<and>
          (\<forall>n\<le>length (queue s3). pstate_of (steps Closure n s') P = None) \<and>
          stub_flag (steps Closure (Suc (length (queue s3))) s') = None \<and>
          calls (steps Closure (Suc (length (queue s3))) s') = calls (steps Closure (length (queue s3)) s') \<and>
          pstate_of (steps Closure (Suc (length (queue s3))) s') P = Some out) \<and>
       (pstate_of s3 b = None \<longrightarrow>
          s' = s3\<lparr>heap := (heap s3)[b := (heap s3 ! b)
            \<lparr>reactions := reactions (heap s3 ! b) @ [\<lambda>z. [Finally_unstub, Settle P z] ]\<rparr>]\<rparr> \<and>
          pstate_of s' P = None \<and> pstate_of s' b = None \<and>
          reactions_of s' b = reactions_of s3 b @ [\<lambda>z. [Finally_unstub, Settle P z] ] \<and>
          (b \<noteq> P \<and> list_all (settles_not P) (map (\<lambda>r. r out) (reactions_of s3 b)) \<longrightarrow>
             (\<forall>n\<le>length (queue s3) + length (reactions_of s3 b). pstate_of (steps Closure n (settle b out s')) P = None) \<and>
             stub_flag (steps Closure (Suc (length (queue s3) + length (reactions_of s3 b))) (settle b out s')) = None \<and>
             calls (steps Closure (Suc (length (queue s3) + length (reactions_of s3 b))) (settle b out s')) = calls (steps Closure (length (queue s3) + length (reactions_of s3 b)) (settle b out s')) \<and>
             pstate_of (steps Closure (Suc (length (queue s3) + length (reactions_of s3 b))) (settle b out s')) P = Some out))) \<and>
   (queue t = js @ [Finally_unstub, Settle Q out] # rest \<and> Q < length (heap t) \<and>
    pstate_of t Q = None \<and> list_all (settles_not Q) js \<longrightarrow>
       (\<forall>n\<le>length js. pstate_of (steps SharedObject n t) Q = None \<and>
                         pstate_of (steps Closure n t) Q = None) \<and>
       stub_flag (steps SharedObject (Suc (length js)) t) = Some False \<and>
       calls (steps SharedObject (Suc (length js)) t) = [] \<and>
       pstate_of (steps SharedObject (Suc (length js)) t) Q = Some out \<and>
       stub_flag (steps Closure (Suc (length js)) t) = None \<and>
       calls (steps Closure (Suc (length js)) t) = calls (steps Closure (length js) t) \<and>
       pstate_of (steps Closure (Suc (length js)) t) Q = Some out) \<and>
   (c < length (heap t) \<and> pstate_of t c = None \<and>
    reactions_of t c = rs @ [\<lambda>z. [Finally_unstub, Settle Q z] ] \<and>
    Q < length (heap t) \<and> pstate_of t Q = None \<and> Q \<noteq> c \<and>
    list_all (settles_not Q) (queue t) \<and> list_all (settles_not Q) (map (\<lambda>r. r out) rs) \<longrightarrow>
       (\<forall>n\<le>length (queue t) + length rs. pstate_of (steps SharedObject n (settle c out t)) Q = None \<and>
                         pstate_of (steps Closure n (settle c out t)) Q = None) \<and>
       stub_flag (steps SharedObject (Suc (length (queue t) + length rs)) (settle c out t)) = Some False \<and>
       calls (steps SharedObject (Suc (length (queue t) + length rs)) (settle c out t)) = [] \<and>
       pstate_of (steps SharedObject (Suc (length (queue t) + length rs)) (settle c out t)) Q = Some out \<and>
       stub_flag (steps Closure (Suc (length (queue t) + length rs)) (settle c out t)) = None \<and>
       calls (steps Closure (Suc (length (queue t) + length rs)) (settle c out t)) = calls (steps Closure (length (queue t) + length rs) (settle c out t)) \<and>
       pstate_of (steps Closure (Suc (length (queue t) + length rs)) (settle c out t)) Q = Some out) \<and>
   (f (reset (stub (snd (new_promise s)))) = (Inl e, s3) \<and> length (heap s) < length (heap s3) \<and>
    pstate_of s3 (length (heap s)) = None \<and> withStub f s = (P, s') \<longrightarrow>
       P = length (heap s) \<and> stub_flag s' = Some False \<and> calls s' = [] \<and>
       pstate_of s' P = Some (Rejected e)) \<and>
   (g (reset (stub_closure (snd (new_promise s)))) = (Inl e, s3) \<and>
    length (heap s) < length (heap s3) \<and>
    pstate_of s3 (length (heap s)) = None \<and> withStub_closure g s = (P, s') \<longrightarrow>
       P = length (heap s) \<and> stub_flag s' = None \<and> calls s' = calls s3 \<and>
       pstate_of s' P = Some (Rejected e))"
proof (intro conjI)
  show "f (reset (stub (snd (new_promise s)))) = (Inr b, s3) \<and> b < length (heap s3) \<and>
        length (heap s) < length (heap s3) \<and> pstate_of s3 (length (heap s)) = None \<and>
        list_all (settles_not (length (heap s))) (queue s3) \<and> withStub f s = (P, s') \<longrightarrow>
           P = length (heap s) \<and>
           (pstate_of s3 b = Some out \<longrightarrow>
              s' = s3\<lparr>queue := queue s3 @ [ [Finally_unstub, Settle P out] ]\<rparr> \<and>
              (\<forall>n\<le>length (queue s3). pstate_of (steps SharedObject n s') P = None) \<and>
              stub_flag (steps SharedObject (Suc (length (queue s3))) s') = Some False \<and>
              calls (steps SharedObject (Suc (length (queue s3))) s') = [] \<and>
              pstate_of (steps SharedObject (Suc (length (queue s3))) s') P = Some out) \<and>
           (pstate_of s3 b = None \<longrightarrow>
              s' = s3\<lparr>heap := (heap s3)[b := (heap s3 ! b)
                \<lparr>reactions := reactions (heap s3 ! b) @ [\<lambda>z. [Finally_unstub, Settle P z] ]\<rparr>]\<rparr> \<and>
              pstate_of s' P = None \<and> pstate_of s' b = None \<and>
              reactions_of s' b = reactions_of s3 b @ [\<lambda>z. [Finally_unstub, Settle P z] ] \<and>
              (b \<noteq> P \<and> list_all (settles_not P) (map (\<lambda>r. r out) (reactions_of s3 b)) \<longrightarrow>
                 (\<forall>n\<le>length (queue s3) + length (reactions_of s3 b). pstate_of (steps SharedObject n (settle b out s')) P = None) \<and>
                 stub_flag (steps SharedObject (Suc (length (queue s3) + length (reactions_of s3 b))) (settle b out s')) = Some False \<and>
                 calls (steps SharedObject (Suc (length (queue s3) + length (reactions_of s3 b))) (settle b out s')) = [] \<and>
                 pstate_of (steps SharedObject (Suc (length (queue s3) + length (reactions_of s3 b))) (settle b out s')) P = Some out))"
  proof (intro impI)
    assume a: "f (reset (stub (snd (new_promise s)))) = (Inr b, s3) \<and> b < length (heap s3) \<and>
               length (heap s) < length (heap s3) \<and> pstate_of s3 (length (heap s)) = None \<and>
               list_all (settles_not (length (heap s))) (queue s3) \<and> withStub f s = (P, s')"
    from a withStub_returned [of f s b s3]
    have P: "P = length (heap s)"
      and s': "s' = then_react b (\<lambda>z. [Finally_unstub, Settle P z]) s3"
      by auto
    from a have b: "b < length (heap s3)" and P1: "P < length (heap s3)"
      and P2: "pstate_of s3 P = None" and sq: "list_all (settles_not P) (queue s3)"
      by (simp_all add: P)
    note L = returned_body_teardown [OF b P1 P2 sq s']
    have settled: "pstate_of s3 b = Some out \<longrightarrow>
                      s' = s3\<lparr>queue := queue s3 @ [ [Finally_unstub, Settle P out] ]\<rparr> \<and>
                      (\<forall>n\<le>length (queue s3). pstate_of (steps SharedObject n s') P = None) \<and>
                      stub_flag (steps SharedObject (Suc (length (queue s3))) s') = Some False \<and>
                      calls (steps SharedObject (Suc (length (queue s3))) s') = [] \<and>
                      pstate_of (steps SharedObject (Suc (length (queue s3))) s') P = Some out"
    proof
      assume h: "pstate_of s3 b = Some out"
      from L(2) [OF h] have "(\<forall>n\<le>length (queue s3). pstate_of (steps SharedObject n s') P = None) \<and>
                            stub_flag (steps SharedObject (Suc (length (queue s3))) s') = Some False \<and>
                            calls (steps SharedObject (Suc (length (queue s3))) s') = [] \<and>
                            pstate_of (steps SharedObject (Suc (length (queue s3))) s') P = Some out"
        by simp
      with L(1) [OF h] show "s' = s3\<lparr>queue := queue s3 @ [ [Finally_unstub, Settle P out] ]\<rparr> \<and>
                             (\<forall>n\<le>length (queue s3). pstate_of (steps SharedObject n s') P = None) \<and>
                             stub_flag (steps SharedObject (Suc (length (queue s3))) s') = Some False \<and>
                             calls (steps SharedObject (Suc (length (queue s3))) s') = [] \<and>
                             pstate_of (steps SharedObject (Suc (length (queue s3))) s') P = Some out"
        by (rule conjI)
    qed
    have pending: "pstate_of s3 b = None \<longrightarrow>
                      s' = s3\<lparr>heap := (heap s3)[b := (heap s3 ! b)
                        \<lparr>reactions := reactions (heap s3 ! b) @ [\<lambda>z. [Finally_unstub, Settle P z] ]\<rparr>]\<rparr> \<and>
                      pstate_of s' P = None \<and> pstate_of s' b = None \<and>
                      reactions_of s' b = reactions_of s3 b @ [\<lambda>z. [Finally_unstub, Settle P z] ] \<and>
                      (b \<noteq> P \<and> list_all (settles_not P) (map (\<lambda>r. r out) (reactions_of s3 b)) \<longrightarrow>
                         (\<forall>n\<le>length (queue s3) + length (reactions_of s3 b). pstate_of (steps SharedObject n (settle b out s')) P = None) \<and>
                         stub_flag (steps SharedObject (Suc (length (queue s3) + length (reactions_of s3 b))) (settle b out s')) = Some False \<and>
                         calls (steps SharedObject (Suc (length (queue s3) + length (reactions_of s3 b))) (settle b out s')) = [] \<and>
                         pstate_of (steps SharedObject (Suc (length (queue s3) + length (reactions_of s3 b))) (settle b out s')) P = Some out)"
    proof
      assume h: "pstate_of s3 b = None"
      have inner: "b \<noteq> P \<and> list_all (settles_not P) (map (\<lambda>r. r out) (reactions_of s3 b)) \<longrightarrow>
               (\<forall>n\<le>length (queue s3) + length (reactions_of s3 b). pstate_of (steps SharedObject n (settle b out s')) P = None) \<and>
               stub_flag (steps SharedObject (Suc (length (queue s3) + length (reactions_of s3 b))) (settle b out s')) = Some False \<and>
               calls (steps SharedObject (Suc (length (queue s3) + length (reactions_of s3 b))) (settle b out s')) = [] \<and>
               pstate_of (steps SharedObject (Suc (length (queue s3) + length (reactions_of s3 b))) (settle b out s')) P = Some out"
      proof
        assume "b \<noteq> P \<and> list_all (settles_not P) (map (\<lambda>r. r out) (reactions_of s3 b))"
        then have "b \<noteq> P"
          and "list_all (settles_not P) (map (\<lambda>r. r out) (reactions_of s3 b))"
          by simp_all
        from L(5) [OF h this]
        show "(\<forall>n\<le>length (queue s3) + length (reactions_of s3 b). pstate_of (steps SharedObject n (settle b out s')) P = None) \<and>
              stub_flag (steps SharedObject (Suc (length (queue s3) + length (reactions_of s3 b))) (settle b out s')) = Some False \<and>
              calls (steps SharedObject (Suc (length (queue s3) + length (reactions_of s3 b))) (settle b out s')) = [] \<and>
              pstate_of (steps SharedObject (Suc (length (queue s3) + length (reactions_of s3 b))) (settle b out s')) P = Some out"
          by simp
      qed
      note p = L(4) [OF h]
      show "s' = s3\<lparr>heap := (heap s3)[b := (heap s3 ! b)
              \<lparr>reactions := reactions (heap s3 ! b) @ [\<lambda>z. [Finally_unstub, Settle P z] ]\<rparr>]\<rparr> \<and>
            pstate_of s' P = None \<and> pstate_of s' b = None \<and>
            reactions_of s' b = reactions_of s3 b @ [\<lambda>z. [Finally_unstub, Settle P z] ] \<and>
            (b \<noteq> P \<and> list_all (settles_not P) (map (\<lambda>r. r out) (reactions_of s3 b)) \<longrightarrow>
               (\<forall>n\<le>length (queue s3) + length (reactions_of s3 b). pstate_of (steps SharedObject n (settle b out s')) P = None) \<and>
               stub_flag (steps SharedObject (Suc (length (queue s3) + length (reactions_of s3 b))) (settle b out s')) = Some False \<and>
               calls (steps SharedObject (Suc (length (queue s3) + length (reactions_of s3 b))) (settle b out s')) = [] \<and>
               pstate_of (steps SharedObject (Suc (length (queue s3) + length (reactions_of s3 b))) (settle b out s')) P = Some out)"
        by (rule conjI [OF L(3) [OF h] conjI [OF p [THEN conjunct1]
                  conjI [OF p [THEN conjunct2, THEN conjunct1]
                  conjI [OF p [THEN conjunct2, THEN conjunct2] inner] ] ] ])
    qed
    show "P = length (heap s) \<and>
          (pstate_of s3 b = Some out \<longrightarrow>
             s' = s3\<lparr>queue := queue s3 @ [ [Finally_unstub, Settle P out] ]\<rparr> \<and>
             (\<forall>n\<le>length (queue s3). pstate_of (steps SharedObject n s') P = None) \<and>
             stub_flag (steps SharedObject (Suc (length (queue s3))) s') = Some False \<and>
             calls (steps SharedObject (Suc (length (queue s3))) s') = [] \<and>
             pstate_of (steps SharedObject (Suc (length (queue s3))) s') P = Some out) \<and>
          (pstate_of s3 b = None \<longrightarrow>
             s' = s3\<lparr>heap := (heap s3)[b := (heap s3 ! b)
               \<lparr>reactions := reactions (heap s3 ! b) @ [\<lambda>z. [Finally_unstub, Settle P z] ]\<rparr>]\<rparr> \<and>
             pstate_of s' P = None \<and> pstate_of s' b = None \<and>
             reactions_of s' b = reactions_of s3 b @ [\<lambda>z. [Finally_unstub, Settle P z] ] \<and>
             (b \<noteq> P \<and> list_all (settles_not P) (map (\<lambda>r. r out) (reactions_of s3 b)) \<longrightarrow>
                (\<forall>n\<le>length (queue s3) + length (reactions_of s3 b). pstate_of (steps SharedObject n (settle b out s')) P = None) \<and>
                stub_flag (steps SharedObject (Suc (length (queue s3) + length (reactions_of s3 b))) (settle b out s')) = Some False \<and>
                calls (steps SharedObject (Suc (length (queue s3) + length (reactions_of s3 b))) (settle b out s')) = [] \<and>
                pstate_of (steps SharedObject (Suc (length (queue s3) + length (reactions_of s3 b))) (settle b out s')) P = Some out))"
      by (rule conjI [OF P conjI [OF settled pending] ])
  qed
next
  show "g (reset (stub_closure (snd (new_promise s)))) = (Inr b, s3) \<and> b < length (heap s3) \<and>
        length (heap s) < length (heap s3) \<and> pstate_of s3 (length (heap s)) = None \<and>
        list_all (settles_not (length (heap s))) (queue s3) \<and> withStub_closure g s = (P, s') \<longrightarrow>
           P = length (heap s) \<and>
           (pstate_of s3 b = Some out \<longrightarrow>
              s' = s3\<lparr>queue := queue s3 @ [ [Finally_unstub, Settle P out] ]\<rparr> \<and>
              (\<forall>n\<le>length (queue s3). pstate_of (steps Closure n s') P = None) \<and>
              stub_flag (steps Closure (Suc (length (queue s3))) s') = None \<and>
              calls (steps Closure (Suc (length (queue s3))) s') = calls (steps Closure (length (queue s3)) s') \<and>
              pstate_of (steps Closure (Suc (length (queue s3))) s') P = Some out) \<and>
           (pstate_of s3 b = None \<longrightarrow>
              s' = s3\<lparr>heap := (heap s3)[b := (heap s3 ! b)
                \<lparr>reactions := reactions (heap s3 ! b) @ [\<lambda>z. [Finally_unstub, Settle P z] ]\<rparr>]\<rparr> \<and>
              pstate_of s' P = None \<and> pstate_of s' b = None \<and>
              reactions_of s' b = reactions_of s3 b @ [\<lambda>z. [Finally_unstub, Settle P z] ] \<and>
              (b \<noteq> P \<and> list_all (settles_not P) (map (\<lambda>r. r out) (reactions_of s3 b)) \<longrightarrow>
                 (\<forall>n\<le>length (queue s3) + length (reactions_of s3 b). pstate_of (steps Closure n (settle b out s')) P = None) \<and>
                 stub_flag (steps Closure (Suc (length (queue s3) + length (reactions_of s3 b))) (settle b out s')) = None \<and>
                 calls (steps Closure (Suc (length (queue s3) + length (reactions_of s3 b))) (settle b out s')) = calls (steps Closure (length (queue s3) + length (reactions_of s3 b)) (settle b out s')) \<and>
                 pstate_of (steps Closure (Suc (length (queue s3) + length (reactions_of s3 b))) (settle b out s')) P = Some out))"
  proof (intro impI)
    assume a: "g (reset (stub_closure (snd (new_promise s)))) = (Inr b, s3) \<and> b < length (heap s3) \<and>
               length (heap s) < length (heap s3) \<and> pstate_of s3 (length (heap s)) = None \<and>
               list_all (settles_not (length (heap s))) (queue s3) \<and> withStub_closure g s = (P, s')"
    from a withStub_closure_returned [of g s b s3]
    have P: "P = length (heap s)"
      and s': "s' = then_react b (\<lambda>z. [Finally_unstub, Settle P z]) s3"
      by auto
    from a have b: "b < length (heap s3)" and P1: "P < length (heap s3)"
      and P2: "pstate_of s3 P = None" and sq: "list_all (settles_not P) (queue s3)"
      by (simp_all add: P)
    note L = returned_body_teardown [OF b P1 P2 sq s']
    have settled: "pstate_of s3 b = Some out \<longrightarrow>
                      s' = s3\<lparr>queue := queue s3 @ [ [Finally_unstub, Settle P out] ]\<rparr> \<and>
                      (\<forall>n\<le>length (queue s3). pstate_of (steps Closure n s') P = None) \<and>
                      stub_flag (steps Closure (Suc (length (queue s3))) s') = None \<and>
                      calls (steps Closure (Suc (length (queue s3))) s') = calls (steps Closure (length (queue s3)) s') \<and>
                      pstate_of (steps Closure (Suc (length (queue s3))) s') P = Some out"
    proof
      assume h: "pstate_of s3 b = Some out"
      from L(2) [OF h] have "(\<forall>n\<le>length (queue s3). pstate_of (steps Closure n s') P = None) \<and>
                            stub_flag (steps Closure (Suc (length (queue s3))) s') = None \<and>
                            calls (steps Closure (Suc (length (queue s3))) s') = calls (steps Closure (length (queue s3)) s') \<and>
                            pstate_of (steps Closure (Suc (length (queue s3))) s') P = Some out"
        by simp
      with L(1) [OF h] show "s' = s3\<lparr>queue := queue s3 @ [ [Finally_unstub, Settle P out] ]\<rparr> \<and>
                             (\<forall>n\<le>length (queue s3). pstate_of (steps Closure n s') P = None) \<and>
                             stub_flag (steps Closure (Suc (length (queue s3))) s') = None \<and>
                             calls (steps Closure (Suc (length (queue s3))) s') = calls (steps Closure (length (queue s3)) s') \<and>
                             pstate_of (steps Closure (Suc (length (queue s3))) s') P = Some out"
        by (rule conjI)
    qed
    have pending: "pstate_of s3 b = None \<longrightarrow>
                      s' = s3\<lparr>heap := (heap s3)[b := (heap s3 ! b)
                        \<lparr>reactions := reactions (heap s3 ! b) @ [\<lambda>z. [Finally_unstub, Settle P z] ]\<rparr>]\<rparr> \<and>
                      pstate_of s' P = None \<and> pstate_of s' b = None \<and>
                      reactions_of s' b = reactions_of s3 b @ [\<lambda>z. [Finally_unstub, Settle P z] ] \<and>
                      (b \<noteq> P \<and> list_all (settles_not P) (map (\<lambda>r. r out) (reactions_of s3 b)) \<longrightarrow>
                         (\<forall>n\<le>length (queue s3) + length (reactions_of s3 b). pstate_of (steps Closure n (settle b out s')) P = None) \<and>
                         stub_flag (steps Closure (Suc (length (queue s3) + length (reactions_of s3 b))) (settle b out s')) = None \<and>
                         calls (steps Closure (Suc (length (queue s3) + length (reactions_of s3 b))) (settle b out s')) = calls (steps Closure (length (queue s3) + length (reactions_of s3 b)) (settle b out s')) \<and>
                         pstate_of (steps Closure (Suc (length (queue s3) + length (reactions_of s3 b))) (settle b out s')) P = Some out)"
    proof
      assume h: "pstate_of s3 b = None"
      have inner: "b \<noteq> P \<and> list_all (settles_not P) (map (\<lambda>r. r out) (reactions_of s3 b)) \<longrightarrow>
               (\<forall>n\<le>length (queue s3) + length (reactions_of s3 b). pstate_of (steps Closure n (settle b out s')) P = None) \<and>
               stub_flag (steps Closure (Suc (length (queue s3) + length (reactions_of s3 b))) (settle b out s')) = None \<and>
               calls (steps Closure (Suc (length (queue s3) + length (reactions_of s3 b))) (settle b out s')) = calls (steps Closure (length (queue s3) + length (reactions_of s3 b)) (settle b out s')) \<and>
               pstate_of (steps Closure (Suc (length (queue s3) + length (reactions_of s3 b))) (settle b out s')) P = Some out"
      proof
        assume "b \<noteq> P \<and> list_all (settles_not P) (map (\<lambda>r. r out) (reactions_of s3 b))"
        then have "b \<noteq> P"
          and "list_all (settles_not P) (map (\<lambda>r. r out) (reactions_of s3 b))"
          by simp_all
        from L(5) [OF h this]
        show "(\<forall>n\<le>length (queue s3) + length (reactions_of s3 b). pstate_of (steps Closure n (settle b out s')) P = None) \<and>
              stub_flag (steps Closure (Suc (length (queue s3) + length (reactions_of s3 b))) (settle b out s')) = None \<and>
              calls (steps Closure (Suc (length (queue s3) + length (reactions_of s3 b))) (settle b out s')) = calls (steps Closure (length (queue s3) + length (reactions_of s3 b)) (settle b out s')) \<and>
              pstate_of (steps Closure (Suc (length (queue s3) + length (reactions_of s3 b))) (settle b out s')) P = Some out"
          by simp
      qed
      note p = L(4) [OF h]
      show "s' = s3\<lparr>heap := (heap s3)[b := (heap s3 ! b)
              \<lparr>reactions := reactions (heap s3 ! b) @ [\<lambda>z. [Finally_unstub, Settle P z] ]\<rparr>]\<rparr> \<and>
            pstate_of s' P = None \<and> pstate_of s' b = None \<and>
            reactions_of s' b = reactions_of s3 b @ [\<lambda>z. [Finally_unstub, Settle P z] ] \<and>
            (b \<noteq> P \<and> list_all (settles_not P) (map (\<lambda>r. r out) (reactions_of s3 b)) \<longrightarrow>
               (\<forall>n\<le>length (queue s3) + length (reactions_of s3 b). pstate_of (steps Closure n (settle b out s')) P = None) \<and>
               stub_flag (steps Closure (Suc (length (queue s3) + length (reactions_of s3 b))) (settle b out s')) = None \<and>
               calls (steps Closure (Suc (length (queue s3) + length (reactions_of s3 b))) (settle b out s')) = calls (steps Closure (length (queue s3) + length (reactions_of s3 b)) (settle b out s')) \<and>
               pstate_of (steps Closure (Suc (length (queue s3) + length (reactions_of s3 b))) (settle b out s')) P = Some out)"
        by (rule conjI [OF L(3) [OF h] conjI [OF p [THEN conjunct1]
                  conjI [OF p [THEN conjunct2, THEN conjunct1]
                  conjI [OF p [THEN conjunct2, THEN conjunct2] inner] ] ] ])
    qed
    show "P = length (heap s) \<and>
          (pstate_of s3 b = Some out \<longrightarrow>
             s' = s3\<lparr>queue := queue s3 @ [ [Finally_unstub, Settle P out] ]\<rparr> \<and>
             (\<forall>n\<le>length (queue s3). pstate_of (steps Closure n s') P = None) \<and>
             stub_flag (steps Closure (Suc (length (queue s3))) s') = None \<and>
             calls (steps Closure (Suc (length (queue s3))) s') = calls (steps Closure (length (queue s3)) s') \<and>
             pstate_of (steps Closure (Suc (length (queue s3))) s') P = Some out) \<and>
          (pstate_of s3 b = None \<longrightarrow>
             s' = s3\<lparr>heap := (heap s3)[b := (heap s3 ! b)
               \<lparr>reactions := reactions (heap s3 ! b) @ [\<lambda>z. [Finally_unstub, Settle P z] ]\<rparr>]\<rparr> \<and>
             pstate_of s' P = None \<and> pstate_of s' b = None \<and>
             reactions_of s' b = reactions_of s3 b @ [\<lambda>z. [Finally_unstub, Settle P z] ] \<and>
             (b \<noteq> P \<and> list_all (settles_not P) (map (\<lambda>r. r out) (reactions_of s3 b)) \<longrightarrow>
                (\<forall>n\<le>length (queue s3) + length (reactions_of s3 b). pstate_of (steps Closure n (settle b out s')) P = None) \<and>
                stub_flag (steps Closure (Suc (length (queue s3) + length (reactions_of s3 b))) (settle b out s')) = None \<and>
                calls (steps Closure (Suc (length (queue s3) + length (reactions_of s3 b))) (settle b out s')) = calls (steps Closure (length (queue s3) + length (reactions_of s3 b)) (settle b out s')) \<and>
                pstate_of (steps Closure (Suc (length (queue s3) + length (reactions_of s3 b))) (settle b out s')) P = Some out))"
      by (rule conjI [OF P conjI [OF settled pending] ])
  qed
next
  show "queue t = js @ [Finally_unstub, Settle Q out] # rest \<and> Q < length (heap t) \<and>
        pstate_of t Q = None \<and> list_all (settles_not Q) js \<longrightarrow>
           (\<forall>n\<le>length js. pstate_of (steps SharedObject n t) Q = None \<and>
                             pstate_of (steps Closure n t) Q = None) \<and>
           stub_flag (steps SharedObject (Suc (length js)) t) = Some False \<and>
           calls (steps SharedObject (Suc (length js)) t) = [] \<and>
           pstate_of (steps SharedObject (Suc (length js)) t) Q = Some out \<and>
           stub_flag (steps Closure (Suc (length js)) t) = None \<and>
           calls (steps Closure (Suc (length js)) t) = calls (steps Closure (length js) t) \<and>
           pstate_of (steps Closure (Suc (length js)) t) Q = Some out"
  proof (intro impI)
    assume a: "queue t = js @ [Finally_unstub, Settle Q out] # rest \<and> Q < length (heap t) \<and>
               pstate_of t Q = None \<and> list_all (settles_not Q) js"
    then have q: "queue t = js @ [Finally_unstub, Settle Q out] # rest"
      and Q: "Q < length (heap t)" "pstate_of t Q = None"
      and sn: "list_all (settles_not Q) js"
      by simp_all
    from teardown_job_result [OF q Q sn]
    show "(\<forall>n\<le>length js. pstate_of (steps SharedObject n t) Q = None \<and>
                            pstate_of (steps Closure n t) Q = None) \<and>
          stub_flag (steps SharedObject (Suc (length js)) t) = Some False \<and>
          calls (steps SharedObject (Suc (length js)) t) = [] \<and>
          pstate_of (steps SharedObject (Suc (length js)) t) Q = Some out \<and>
          stub_flag (steps Closure (Suc (length js)) t) = None \<and>
          calls (steps Closure (Suc (length js)) t) = calls (steps Closure (length js) t) \<and>
          pstate_of (steps Closure (Suc (length js)) t) Q = Some out" .
  qed
next
  show "c < length (heap t) \<and> pstate_of t c = None \<and>
        reactions_of t c = rs @ [\<lambda>z. [Finally_unstub, Settle Q z] ] \<and>
        Q < length (heap t) \<and> pstate_of t Q = None \<and> Q \<noteq> c \<and>
        list_all (settles_not Q) (queue t) \<and> list_all (settles_not Q) (map (\<lambda>r. r out) rs) \<longrightarrow>
           (\<forall>n\<le>length (queue t) + length rs. pstate_of (steps SharedObject n (settle c out t)) Q = None \<and>
                             pstate_of (steps Closure n (settle c out t)) Q = None) \<and>
           stub_flag (steps SharedObject (Suc (length (queue t) + length rs)) (settle c out t)) = Some False \<and>
           calls (steps SharedObject (Suc (length (queue t) + length rs)) (settle c out t)) = [] \<and>
           pstate_of (steps SharedObject (Suc (length (queue t) + length rs)) (settle c out t)) Q = Some out \<and>
           stub_flag (steps Closure (Suc (length (queue t) + length rs)) (settle c out t)) = None \<and>
           calls (steps Closure (Suc (length (queue t) + length rs)) (settle c out t)) = calls (steps Closure (length (queue t) + length rs) (settle c out t)) \<and>
           pstate_of (steps Closure (Suc (length (queue t) + length rs)) (settle c out t)) Q = Some out"
  proof (intro impI)
    assume a: "c < length (heap t) \<and> pstate_of t c = None \<and>
               reactions_of t c = rs @ [\<lambda>z. [Finally_unstub, Settle Q z] ] \<and>
               Q < length (heap t) \<and> pstate_of t Q = None \<and> Q \<noteq> c \<and>
               list_all (settles_not Q) (queue t) \<and> list_all (settles_not Q) (map (\<lambda>r. r out) rs)"
    then have c: "c < length (heap t)" "pstate_of t c = None"
      and rs: "reactions_of t c = rs @ [\<lambda>z. [Finally_unstub, Settle Q z] ]"
      and Q: "Q < length (heap t)" "pstate_of t Q = None" "Q \<noteq> c"
      and sq: "list_all (settles_not Q) (queue t)"
      and sr: "list_all (settles_not Q) (map (\<lambda>r. r out) rs)"
      by simp_all
    from teardown_after_settle [OF c rs Q sq sr]
    show "(\<forall>n\<le>length (queue t) + length rs. pstate_of (steps SharedObject n (settle c out t)) Q = None \<and>
                            pstate_of (steps Closure n (settle c out t)) Q = None) \<and>
          stub_flag (steps SharedObject (Suc (length (queue t) + length rs)) (settle c out t)) = Some False \<and>
          calls (steps SharedObject (Suc (length (queue t) + length rs)) (settle c out t)) = [] \<and>
          pstate_of (steps SharedObject (Suc (length (queue t) + length rs)) (settle c out t)) Q = Some out \<and>
          stub_flag (steps Closure (Suc (length (queue t) + length rs)) (settle c out t)) = None \<and>
          calls (steps Closure (Suc (length (queue t) + length rs)) (settle c out t)) = calls (steps Closure (length (queue t) + length rs) (settle c out t)) \<and>
          pstate_of (steps Closure (Suc (length (queue t) + length rs)) (settle c out t)) Q = Some out" .
  qed
next
  show "f (reset (stub (snd (new_promise s)))) = (Inl e, s3) \<and> length (heap s) < length (heap s3) \<and>
        pstate_of s3 (length (heap s)) = None \<and> withStub f s = (P, s') \<longrightarrow>
           P = length (heap s) \<and> stub_flag s' = Some False \<and> calls s' = [] \<and>
           pstate_of s' P = Some (Rejected e)"
  proof (intro impI)
    assume a: "f (reset (stub (snd (new_promise s)))) = (Inl e, s3) \<and> length (heap s) < length (heap s3) \<and>
               pstate_of s3 (length (heap s)) = None \<and> withStub f s = (P, s')"
    from a withStub_thrown [of f s e s3]
    have P: "P = length (heap s)" and s': "s' = settle P (Rejected e) (unstub s3)"
      by auto
    from a have "P < length (heap s3)" "pstate_of s3 P = None" by (simp_all add: P)
    from settle_after_unstub [OF this, of "Rejected e"] P
    show "P = length (heap s) \<and> stub_flag s' = Some False \<and> calls s' = [] \<and>
          pstate_of s' P = Some (Rejected e)"
      by (simp add: s')
  qed
next
  show "g (reset (stub_closure (snd (new_promise s)))) = (Inl e, s3) \<and>
        length (heap s) < length (heap s3) \<and>
        pstate_of s3 (length (heap s)) = None \<and> withStub_closure g s = (P, s') \<longrightarrow>
           P = length (heap s) \<and> stub_flag s' = None \<and> calls s' = calls s3 \<and>
           pstate_of s' P = Some (Rejected e)"
  proof (intro impI)
    assume a: "g (reset (stub_closure (snd (new_promise s)))) = (Inl e, s3) \<and>
               length (heap s) < length (heap s3) \<and>
               pstate_of s3 (length (heap s)) = None \<and> withStub_closure g s = (P, s')"
    from a withStub_closure_thrown [of g s e s3]
    have P: "P = length (heap s)" and s': "s' = settle P (Rejected e) (unstub_closure s3)"
      by auto
    from a have "P < length (heap s3)" "pstate_of s3 P = None" by (simp_all add: P)
    from settle_after_unstub_closure [OF this, of "Rejected e"] P
    show "P = length (heap s) \<and> stub_flag s' = None \<and> calls s' = calls s3 \<and>
          pstate_of s' P = Some (Rejected e)"
      by (simp add: s')
  qed
qed


lemma test_body_run_eq:
  "test_body SharedObject (reset (stub (snd (new_promise init_state)))) =
     (Inr 3, \<lparr>calls = [entry spy_cmd 1], stub_flag = Some True,
              heap = [fresh,
                      \<lparr>pstate = None,
                       reactions = [\<lambda>out. case out of Fulfilled v \<Rightarrow> []
                                       | Rejected e \<Rightarrow> [Settle (Suc (Suc (Suc 0))) (Rejected e)] ]\<rparr>,
                      \<lparr>pstate = Some (Rejected bodyErr), reactions = []\<rparr>,
                      fresh],
              queue = [ [Settle 3 (Rejected bodyErr)] ], invoked = []\<rparr>)"
  by (simp add: test_body_def call_def track_def new_promise_def
                Promise_reject_def reset_def stub_def init_state_def then_react_def settle_def
                spy_cmd_def entry_def no_context_def plain_def fresh_def)

theorem withStub_teardown_witness:
  "fst (withStub (test_body SharedObject) init_state) = 0 \<and>
   pstate_of (snd (withStub (test_body SharedObject) init_state)) 3 = None \<and>
   pstate_of (snd (withStub (test_body SharedObject) init_state)) 0 = None \<and>
   calls (snd (withStub (test_body SharedObject) init_state)) = [entry spy_cmd 1] \<and>
   pstate_of (step SharedObject (snd (withStub (test_body SharedObject) init_state))) 3
     = Some (Rejected bodyErr) \<and>
   pstate_of (step SharedObject (snd (withStub (test_body SharedObject) init_state))) 0 = None \<and>
   stub_flag (step SharedObject (step SharedObject
                (snd (withStub (test_body SharedObject) init_state)))) = Some False \<and>
   calls (step SharedObject (step SharedObject
            (snd (withStub (test_body SharedObject) init_state)))) = [] \<and>
   pstate_of (step SharedObject (step SharedObject
                (snd (withStub (test_body SharedObject) init_state)))) 0
     = Some (Rejected bodyErr) \<and>
   stub_flag (step Closure (step Closure
                (snd (withStub_closure (test_body Closure) init_state)))) = None \<and>
   pstate_of (step Closure (step Closure
                (snd (withStub_closure (test_body Closure) init_state)))) 0
     = Some (Rejected bodyErr) \<and>
   stub_flag (steps SharedObject (Suc 0) (snd (withStub (failing_body SharedObject) init_state)))
     = Some False \<and>
   calls (steps SharedObject (Suc 0) (snd (withStub (failing_body SharedObject) init_state)))
     = [] \<and>
   pstate_of (steps SharedObject (Suc 0) (snd (withStub (failing_body SharedObject) init_state))) 0
     = Some (Rejected bodyErr)"
proof -
  let ?out = "Rejected bodyErr"
  let ?w = "withStub (test_body SharedObject) init_state"
  let ?s' = "snd ?w"
  let ?t = "?s'\<lparr>queue := []\<rparr>"
  let ?c' = "snd (withStub_closure (test_body Closure) init_state)"
  let ?d = "?c'\<lparr>queue := []\<rparr>"
  let ?f' = "snd (withStub (failing_body SharedObject) init_state)"
  let ?s3 = "snd (test_body SharedObject (reset (stub (snd (new_promise init_state)))))"
  have i0: "length (heap init_state) = 0" by (simp add: init_state_def)
  have h1: "test_body SharedObject (reset (stub (snd (new_promise init_state)))) = (Inr 3, ?s3) \<and>
            3 < length (heap ?s3) \<and> length (heap init_state) < length (heap ?s3) \<and>
            pstate_of ?s3 (length (heap init_state)) = None \<and>
            list_all (settles_not (length (heap init_state))) (queue ?s3) \<and>
            withStub (test_body SharedObject) init_state = (0, ?s')"
    by (simp add: i0 test_body_run_eq test_shared_eq pstate_of_def fresh_def settles_not_def)
  have pend: "pstate_of ?s3 3 = None"
    by (simp add: test_body_run_eq pstate_of_def fresh_def)
  note r1 = withStub_teardown [where f = "test_body SharedObject" and s = init_state
                                 and b = 3 and ?s3.0 = ?s3 and P = 0 and s' = ?s'
                                 and out = ?out,
                               THEN conjunct1, THEN mp, OF h1, THEN conjunct2, THEN conjunct2,
                               THEN mp, OF pend, THEN conjunct2]
  have a1: "pstate_of ?s' 0 = None" using r1 by (rule conjunct1)
  have a2: "pstate_of ?s' 3 = None" using r1 [THEN conjunct2] by (rule conjunct1)
  have st: "step SharedObject ?s' = settle 3 ?out ?t"
    and ct: "step Closure ?c' = settle 3 ?out ?d"
    by (simp_all add: test_shared_eq test_closure_eq step_def run_job_def)
  have h4: "3 < length (heap ?t) \<and> pstate_of ?t 3 = None \<and>
            reactions_of ?t 3 = [] @ [\<lambda>z. [Finally_unstub, Settle 0 z] ] \<and>
            0 < length (heap ?t) \<and> pstate_of ?t 0 = None \<and> (0::nat) \<noteq> 3 \<and>
            list_all (settles_not 0) (queue ?t) \<and>
            list_all (settles_not 0) (map (\<lambda>r. r ?out) [])"
    by (simp add: test_shared_eq pstate_of_def reactions_of_def fresh_def)
  have h4c: "3 < length (heap ?d) \<and> pstate_of ?d 3 = None \<and>
            reactions_of ?d 3 = [] @ [\<lambda>z. [Finally_unstub, Settle 0 z] ] \<and>
            0 < length (heap ?d) \<and> pstate_of ?d 0 = None \<and> (0::nat) \<noteq> 3 \<and>
            list_all (settles_not 0) (queue ?d) \<and>
            list_all (settles_not 0) (map (\<lambda>r. r ?out) [])"
    by (simp add: test_closure_eq pstate_of_def reactions_of_def fresh_def)
  have n0: "length (queue ?t) + length ([] :: (outcome \<Rightarrow> job) list) = 0"
    and n0c: "length (queue ?d) + length ([] :: (outcome \<Rightarrow> job) list) = 0"
    by simp_all
  note r4 = withStub_teardown [where t = ?t and c = 3 and rs = "[]" and Q = 0 and out = ?out,
                               THEN conjunct2, THEN conjunct2, THEN conjunct2, THEN conjunct1,
                               THEN mp, OF h4, THEN conjunct2,
                               unfolded n0 steps.simps st [symmetric] ]
  note r4c = withStub_teardown [where t = ?d and c = 3 and rs = "[]" and Q = 0 and out = ?out,
                                THEN conjunct2, THEN conjunct2, THEN conjunct2, THEN conjunct1,
                                THEN mp, OF h4c, THEN conjunct2,
                                unfolded n0c steps.simps ct [symmetric] ]
  have b1: "stub_flag (step SharedObject (step SharedObject ?s')) = Some False"
    using r4 by (rule conjunct1)
  have b2: "calls (step SharedObject (step SharedObject ?s')) = []"
    using r4 [THEN conjunct2] by (rule conjunct1)
  have b3: "pstate_of (step SharedObject (step SharedObject ?s')) 0 = Some ?out"
    using r4 [THEN conjunct2, THEN conjunct2] by (rule conjunct1)
  have c1: "stub_flag (step Closure (step Closure ?c')) = None"
    using r4c [THEN conjunct2, THEN conjunct2, THEN conjunct2] by (rule conjunct1)
  have c2: "pstate_of (step Closure (step Closure ?c')) 0 = Some ?out"
    using r4c [THEN conjunct2, THEN conjunct2, THEN conjunct2, THEN conjunct2]
    by (rule conjunct2)
  have h3: "queue ?f' = [] @ [Finally_unstub, Settle 0 ?out] # [] \<and> 0 < length (heap ?f') \<and>
            pstate_of ?f' 0 = None \<and> list_all (settles_not 0) []"
    by (simp add: failing_shared_eq pstate_of_def fresh_def)
  note r3 = withStub_teardown [where t = ?f' and js = "[]" and Q = 0 and out = ?out
                                 and rest = "[]", THEN conjunct2, THEN conjunct2,
                               THEN conjunct1, THEN mp, OF h3, THEN conjunct2,
                               unfolded list.size(3)]
  have d1: "stub_flag (steps SharedObject (Suc 0) ?f') = Some False"
    using r3 by (rule conjunct1)
  have d2: "calls (steps SharedObject (Suc 0) ?f') = []"
    using r3 [THEN conjunct2] by (rule conjunct1)
  have d3: "pstate_of (steps SharedObject (Suc 0) ?f') 0 = Some ?out"
    using r3 [THEN conjunct2, THEN conjunct2] by (rule conjunct1)
  have e: "fst ?w = 0" "calls ?s' = [entry spy_cmd 1]"
    "pstate_of (step SharedObject ?s') 3 = Some ?out"
    "pstate_of (step SharedObject ?s') 0 = None"
    by (simp_all add: test_shared_eq step_def run_job_def settle_def pstate_of_def fresh_def)
  show ?thesis
    by (intro conjI) (fact e a1 a2 b1 b2 b3 c1 c2 d1 d2 d3)+
qed

end
